theory Spec2Isabelle
  imports Main "HOL-Library.Word"
begin

section \<open>The block writer of c7a/data/block\_writer.hpp\<close>

text \<open>
  A shallow embedding of \<^verbatim>\<open>BlockWriterBase<BlockSize>\<close>. The template parameter
  \<^verbatim>\<open>BlockSize\<close> is the first argument of every operation that allocates a block.
  The members \<^verbatim>\<open>block_\<close>, \<^verbatim>\<open>current_\<close>, \<^verbatim>\<open>end_\<close>, \<^verbatim>\<open>nitems_\<close>, \<^verbatim>\<open>first_offset_\<close>,
  \<^verbatim>\<open>sink_\<close> and \<^verbatim>\<open>closed_\<close> are the fields \<open>m_block\<close>, \<open>m_current\<close>, \<open>m_end\<close>,
  \<open>m_nitems\<close>, \<open>m_first_offset\<close>, \<open>m_sink\<close> and \<open>m_closed\<close> (an identifier cannot
  end in an underscore here).

  \<^item> A \<^verbatim>\<open>Block\<close> is its array of \<^verbatim>\<open>BlockSize\<close> bytes; the shared pointer \<^verbatim>\<open>block_\<close> is
    an option, \<open>None\<close> being the empty pointer. The writer gives up its reference
    when it hands a block to the sink, so the bytes the sink received never change.
  \<^item> The pointers \<^verbatim>\<open>current_\<close> and \<^verbatim>\<open>end_\<close> are offsets from \<^verbatim>\<open>block_->begin()\<close>;
    \<^verbatim>\<open>current_\<close> is an option, \<open>None\<close> being \<^verbatim>\<open>nullptr\<close>.
  \<^item> The sink is an external object: it is modelled by the list of the calls it has
    received, oldest first. \<^verbatim>\<open>sink_\<close> is an option, \<open>None\<close> being \<^verbatim>\<open>nullptr\<close>.
  \<^item> \<^verbatim>\<open>size_t\<close> counters are natural numbers (no block count reaches \<open>2^64\<close>).
  \<^item> A failed \<^verbatim>\<open>assert\<close>, the dereference of a null pointer and a store outside the
    block are results \<open>Inl\<close> of type \<open>fault\<close>.
  \<^item> The loop of \<^verbatim>\<open>Append\<close> does not end when \<^verbatim>\<open>BlockSize\<close> is zero, so it is a partial
    function into \<open>option\<close>: \<open>None\<close> is "does not return".
\<close>

type_synonym byte = "8 word"

datatype fault = AssertionFailed | NullPointer | OutOfBounds

text \<open>Modelled from the spec: \<^verbatim>\<open>VirtualBlock\<close> is declared in \<^verbatim>\<open>c7a/data/block.hpp\<close>, which is not
  among the sources. The spec gives it as the tuple of a block, its valid byte range, the
  offset of the first item and the number of items.\<close>

record virtual_block =
  vb_block :: "byte list"
  vb_begin :: nat
  vb_end :: nat
  vb_first :: nat
  vb_nitems :: nat

text \<open>The calls the writer makes on its \<^verbatim>\<open>BlockSink\<close>:
  \<^verbatim>\<open>AppendBlock(block, begin, end, first, nitems)\<close>, \<^verbatim>\<open>AppendBlock(vb)\<close> and \<^verbatim>\<open>Close()\<close>. The
  block of the first is the array of bytes it holds at the call.\<close>

datatype sink_call =
    AppendBlock "byte list" nat nat nat nat
  | AppendVirtualBlock virtual_block
  | SinkClose

record writer =
  m_block :: "byte list option"
  m_current :: "nat option"
  m_end :: nat
  m_nitems :: nat
  m_first_offset :: nat
  m_sink :: "sink_call list option"
  m_closed :: bool

subsection \<open>Protected helpers\<close>

text \<open>\<^verbatim>\<open>AllocateBlock\<close>. \<^verbatim>\<open>Block\<close> is declared in \<^verbatim>\<open>c7a/data/block.hpp\<close>, which is not among
  the sources: a block is its \<^verbatim>\<open>BlockSize\<close> bytes from \<^verbatim>\<open>begin()\<close> to \<^verbatim>\<open>end()\<close>, and the bytes
  of a fresh block are taken to be zero. Every byte of a valid range is written before the
  block is handed over, so no result below depends on them.\<close>

definition AllocateBlock :: "nat \<Rightarrow> writer \<Rightarrow> writer" where
  "AllocateBlock BlockSize w =
     w\<lparr>m_block := Some (replicate BlockSize 0), m_current := Some 0, m_end := BlockSize,
       m_nitems := 0, m_first_offset := 0\<rparr>"

text \<open>\<^verbatim>\<open>FlushBlock\<close>: \<^verbatim>\<open>sink_->AppendBlock(block_, 0, current_ - block_->begin(),
  first_offset_, nitems_)\<close>, with no test of \<^verbatim>\<open>sink_\<close> or \<^verbatim>\<open>block_\<close>.\<close>

definition FlushBlock :: "writer \<Rightarrow> fault + writer" where
  "FlushBlock w =
     (case m_block w of
        None \<Rightarrow> Inl NullPointer
      | Some b \<Rightarrow>
          (case m_current w of
             None \<Rightarrow> Inl NullPointer
           | Some cur \<Rightarrow>
               (case m_sink w of
                  None \<Rightarrow> Inl NullPointer
                | Some calls \<Rightarrow>
                    Inr (w\<lparr>m_sink :=
                      Some (calls @ [AppendBlock b 0 cur (m_first_offset w) (m_nitems w)])\<rparr>))))"

text \<open>\<^verbatim>\<open>MaybeFlushBlock\<close>: flushes when \<^verbatim>\<open>current_ != block_->begin() || nitems_\<close>, then
  drops the block.\<close>

definition MaybeFlushBlock :: "writer \<Rightarrow> fault + writer" where
  "MaybeFlushBlock w =
     (case m_block w of
        None \<Rightarrow> Inl NullPointer
      | Some b \<Rightarrow>
          if m_current w \<noteq> Some 0 \<or> m_nitems w \<noteq> 0
          then (case FlushBlock w of
                  Inl e \<Rightarrow> Inl e
                | Inr w1 \<Rightarrow> Inr (w1\<lparr>m_nitems := 0, m_block := None, m_current := None\<rparr>))
          else Inr w)"

subsection \<open>Construction, flush, close\<close>

definition BlockWriterBase :: "nat \<Rightarrow> sink_call list option \<Rightarrow> writer" where
  "BlockWriterBase BlockSize snk =
     AllocateBlock BlockSize
       \<lparr>m_block = None, m_current = None, m_end = 0, m_nitems = 0, m_first_offset = 0,
        m_sink = snk, m_closed = False\<rparr>"

definition Flush :: "nat \<Rightarrow> writer \<Rightarrow> fault + writer" where
  "Flush BlockSize w =
     (case FlushBlock w of Inl e \<Rightarrow> Inl e | Inr w1 \<Rightarrow> Inr (AllocateBlock BlockSize w1))"

definition Close :: "writer \<Rightarrow> fault + writer" where
  "Close w =
     (if \<not> m_closed w
      then (case MaybeFlushBlock (w\<lparr>m_closed := True\<rparr>) of
              Inl e \<Rightarrow> Inl e
            | Inr w1 \<Rightarrow>
                (case m_sink w1 of
                   None \<Rightarrow> Inr w1
                 | Some calls \<Rightarrow> Inr (w1\<lparr>m_sink := Some (calls @ [SinkClose])\<rparr>)))
      else Inr w)"

text \<open>The destructor: \<^verbatim>\<open>if (block_) Close();\<close>\<close>

definition Destroy :: "writer \<Rightarrow> fault + writer" where
  "Destroy w = (if m_block w \<noteq> None then Close w else Inr w)"

definition IsValid :: "writer \<Rightarrow> bool" where
  "IsValid w = (m_sink w \<noteq> None)"

text \<open>\<^verbatim>\<open>AppendBlocks\<close>: the loop calls \<^verbatim>\<open>sink_->AppendBlock(vb)\<close> once per element, so
  \<^verbatim>\<open>sink_\<close> is dereferenced only when the vector is not empty.\<close>

definition AppendBlocks :: "nat \<Rightarrow> writer \<Rightarrow> virtual_block list \<Rightarrow> fault + writer" where
  "AppendBlocks BlockSize w vblocks =
     (case MaybeFlushBlock w of
        Inl e \<Rightarrow> Inl e
      | Inr w1 \<Rightarrow>
          if vblocks = [] then Inr (AllocateBlock BlockSize w1)
          else (case m_sink w1 of
                  None \<Rightarrow> Inl NullPointer
                | Some calls \<Rightarrow>
                    Inr (AllocateBlock BlockSize
                      (w1\<lparr>m_sink := Some (calls @ map AppendVirtualBlock vblocks)\<rparr>))))"

subsection \<open>Marking items and appending bytes\<close>

definition MarkItem :: "nat \<Rightarrow> writer \<Rightarrow> fault + writer" where
  "MarkItem BlockSize w =
     (case (if m_current w = Some (m_end w) then Flush BlockSize w else Inr w) of
        Inl e \<Rightarrow> Inl e
      | Inr w1 \<Rightarrow>
          (case (if m_nitems w1 = 0
                 then (case m_block w1 of
                         None \<Rightarrow> Inl NullPointer
                       | Some b \<Rightarrow>
                           (case m_current w1 of
                              None \<Rightarrow> Inl NullPointer
                            | Some cur \<Rightarrow> Inr (w1\<lparr>m_first_offset := cur\<rparr>)))
                 else Inr w1) of
             Inl e \<Rightarrow> Inl e
           | Inr w2 \<Rightarrow> Inr (w2\<lparr>m_nitems := m_nitems w2 + 1\<rparr>)))"

text \<open>\<^verbatim>\<open>std::copy(first, last, out)\<close>: one store per byte, at increasing positions.\<close>

fun copy_into :: "byte list \<Rightarrow> nat \<Rightarrow> byte list \<Rightarrow> byte list" where
  "copy_into [] pos b = b"
| "copy_into (x # xs) pos b = copy_into xs (Suc pos) (b[pos := x])"

text \<open>\<^verbatim>\<open>std::copy(cdata, cdata + n, current_); current_ += n;\<close> A store past the end of
  the block is the fault \<open>OutOfBounds\<close>.\<close>

definition copy_advance :: "writer \<Rightarrow> byte list \<Rightarrow> fault + writer" where
  "copy_advance w cdata =
     (case m_block w of
        None \<Rightarrow> Inl NullPointer
      | Some b \<Rightarrow>
          (case m_current w of
             None \<Rightarrow> Inl NullPointer
           | Some cur \<Rightarrow>
               if cur + length cdata \<le> length b
               then Inr (w\<lparr>m_block := Some (copy_into cdata cur b),
                            m_current := Some (cur + length cdata)\<rparr>)
               else Inl OutOfBounds))"

text \<open>The \<^verbatim>\<open>while\<close> loop of \<^verbatim>\<open>Append\<close> and the copy after it. The memory range
  \<^verbatim>\<open>[data, data + size)\<close> is the byte list \<open>cdata\<close>, and \<^verbatim>\<open>size\<close> is its length. With the
  cursor beyond \<^verbatim>\<open>end_\<close> the unsigned \<^verbatim>\<open>partial_size = end_ - current_\<close> would wrap around
  and the copy would leave the block: that is the fault \<open>OutOfBounds\<close>.\<close>

partial_function (option) append_loop ::
  "nat \<Rightarrow> writer \<Rightarrow> byte list \<Rightarrow> (fault + writer) option" where
  "append_loop BlockSize w cdata =
     (case m_current w of
        None \<Rightarrow> Some (Inl NullPointer)
      | Some cur \<Rightarrow>
          if cur + length cdata > m_end w
          then (if m_end w < cur then Some (Inl OutOfBounds)
                else (let partial_size = m_end w - cur in
                      case copy_advance w (take partial_size cdata) of
                        Inl e \<Rightarrow> Some (Inl e)
                      | Inr w1 \<Rightarrow>
                          (case Flush BlockSize w1 of
                             Inl e \<Rightarrow> Some (Inl e)
                           | Inr w2 \<Rightarrow> append_loop BlockSize w2 (drop partial_size cdata))))
          else Some (copy_advance w cdata))"

declare append_loop.simps [code]

definition Append :: "nat \<Rightarrow> writer \<Rightarrow> byte list \<Rightarrow> (fault + writer) option" where
  "Append BlockSize w cdata =
     (if m_closed w then Some (Inl AssertionFailed) else append_loop BlockSize w cdata)"

text \<open>\<^verbatim>\<open>*current_++ = data;\<close>\<close>

definition store_byte :: "writer \<Rightarrow> byte \<Rightarrow> fault + writer" where
  "store_byte w x =
     (case m_block w of
        None \<Rightarrow> Inl NullPointer
      | Some b \<Rightarrow>
          (case m_current w of
             None \<Rightarrow> Inl NullPointer
           | Some cur \<Rightarrow>
               if cur < length b
               then Inr (w\<lparr>m_block := Some (b[cur := x]), m_current := Some (cur + 1)\<rparr>)
               else Inl OutOfBounds))"

definition PutByte :: "nat \<Rightarrow> writer \<Rightarrow> byte \<Rightarrow> fault + writer" where
  "PutByte BlockSize w x =
     (if m_closed w then Inl AssertionFailed
      else (case m_current w of
              None \<Rightarrow> Inl NullPointer
            | Some cur \<Rightarrow>
                if cur < m_end w then store_byte w x
                else (case Flush BlockSize w of
                        Inl e \<Rightarrow> Inl e
                      | Inr w1 \<Rightarrow> store_byte w1 x)))"

text \<open>\<^verbatim>\<open>Append(const std::string&)\<close> and \<^verbatim>\<open>Put(const Type&)\<close> both call \<^verbatim>\<open>Append\<close> on the
  bytes of their argument (\<^verbatim>\<open>Put\<close> on the \<^verbatim>\<open>sizeof(item)\<close> bytes of the object).\<close>

definition Append_string :: "nat \<Rightarrow> writer \<Rightarrow> byte list \<Rightarrow> (fault + writer) option" where
  "Append_string BlockSize w str = Append BlockSize w str"

definition Put :: "nat \<Rightarrow> writer \<Rightarrow> byte list \<Rightarrow> (fault + writer) option" where
  "Put BlockSize w item = Append BlockSize w item"

subsection \<open>Appending a complete item\<close>

text \<open>
  Modelled from the spec: \<^verbatim>\<open>Serialization<BlockWriterBase, T>::Serialize(x, *this)\<close> is
  declared in \<^verbatim>\<open>c7a/data/serialization.hpp\<close>, which is not among the sources. The spec has
  it write the item's bytes through the writer's byte-append primitives. Here it is a
  parameter of \<^verbatim>\<open>operator()\<close>: the calls of \<^verbatim>\<open>Append\<close>, \<^verbatim>\<open>Put\<close> and \<^verbatim>\<open>PutByte\<close> it makes on the
  writer, in order. A serializer that writes nested items through \<^verbatim>\<open>operator()\<close> is not
  covered.
\<close>

datatype write_call = CallAppend "byte list" | CallPutByte byte

fun apply_call :: "nat \<Rightarrow> write_call \<Rightarrow> writer \<Rightarrow> (fault + writer) option" where
  "apply_call BlockSize (CallAppend cdata) w = Append BlockSize w cdata"
| "apply_call BlockSize (CallPutByte x) w = Some (PutByte BlockSize w x)"

fun Serialize :: "nat \<Rightarrow> write_call list \<Rightarrow> writer \<Rightarrow> (fault + writer) option" where
  "Serialize BlockSize [] w = Some (Inr w)"
| "Serialize BlockSize (c # cs) w =
     (case apply_call BlockSize c w of
        None \<Rightarrow> None
      | Some (Inl e) \<Rightarrow> Some (Inl e)
      | Some (Inr w1) \<Rightarrow> Serialize BlockSize cs w1)"

text \<open>\<^verbatim>\<open>operator()\<close>. \<open>self_verify\<close> is \<^verbatim>\<open>common::g_self_verify\<close>, \<open>hash_code\<close> the bytes of
  \<^verbatim>\<open>typeid(T).hash_code()\<close>, and \<open>ser\<close> what \<^verbatim>\<open>Serialize\<close> does for the item.\<close>

definition write_item ::
  "nat \<Rightarrow> bool \<Rightarrow> byte list \<Rightarrow> write_call list \<Rightarrow> writer \<Rightarrow> (fault + writer) option" where
  "write_item BlockSize self_verify hash_code ser w =
     (if m_closed w then Some (Inl AssertionFailed)
      else (case MarkItem BlockSize w of
              Inl e \<Rightarrow> Some (Inl e)
            | Inr w1 \<Rightarrow>
                (case (if self_verify then Put BlockSize w1 hash_code else Some (Inr w1)) of
                   None \<Rightarrow> None
                 | Some (Inl e) \<Rightarrow> Some (Inl e)
                 | Some (Inr w2) \<Rightarrow> Serialize BlockSize ser w2)))"

subsection \<open>Sequences of calls\<close>

datatype op =
    OpMarkItem
  | OpWrite "byte list" "write_call list"
  | OpAppend "byte list"
  | OpPutByte byte
  | OpFlush
  | OpAppendBlocks "virtual_block list"
  | OpClose

fun exec :: "nat \<Rightarrow> bool \<Rightarrow> op \<Rightarrow> writer \<Rightarrow> (fault + writer) option" where
  "exec BlockSize sv OpMarkItem w = Some (MarkItem BlockSize w)"
| "exec BlockSize sv (OpWrite h ser) w = write_item BlockSize sv h ser w"
| "exec BlockSize sv (OpAppend cdata) w = Append BlockSize w cdata"
| "exec BlockSize sv (OpPutByte x) w = Some (PutByte BlockSize w x)"
| "exec BlockSize sv OpFlush w = Some (Flush BlockSize w)"
| "exec BlockSize sv (OpAppendBlocks vbs) w = Some (AppendBlocks BlockSize w vbs)"
| "exec BlockSize sv OpClose w = Some (Close w)"

text \<open>A sequence of calls stops at the first fault.\<close>

fun run :: "nat \<Rightarrow> bool \<Rightarrow> op list \<Rightarrow> writer \<Rightarrow> (fault + writer) option" where
  "run BlockSize sv [] w = Some (Inr w)"
| "run BlockSize sv (c # cs) w =
     (case exec BlockSize sv c w of
        None \<Rightarrow> None
      | Some (Inl e) \<Rightarrow> Some (Inl e)
      | Some (Inr w1) \<Rightarrow> run BlockSize sv cs w1)"

section \<open>The writer between two calls\<close>

text \<open>
  Between two calls an open writer with a sink holds one block of \<open>BlockSize\<close> bytes, with the
  cursor inside the block or at its end (\<open>ready\<close>). \<open>blk\<close>, \<open>cur\<close> and \<open>calls\<close> read the
  block, the cursor and the sink's calls from such a state.
\<close>

definition blk :: "writer \<Rightarrow> byte list" where
  "blk w = (case m_block w of Some b \<Rightarrow> b | None \<Rightarrow> [])"

definition cur :: "writer \<Rightarrow> nat" where
  "cur w = (case m_current w of Some c \<Rightarrow> c | None \<Rightarrow> 0)"

definition calls :: "writer \<Rightarrow> sink_call list" where
  "calls w = (case m_sink w of Some cs \<Rightarrow> cs | None \<Rightarrow> [])"

definition holds_block :: "nat \<Rightarrow> writer \<Rightarrow> bool" where
  "holds_block BlockSize w =
     (m_block w = Some (blk w) \<and> length (blk w) = BlockSize \<and>
      m_current w = Some (cur w) \<and> cur w \<le> BlockSize \<and> m_end w = BlockSize)"

definition ready :: "nat \<Rightarrow> writer \<Rightarrow> bool" where
  "ready BlockSize w =
     (holds_block BlockSize w \<and> m_sink w = Some (calls w) \<and> m_closed w = False)"

text \<open>
  On such a state every public call is a sequence of four elementary steps: hand the block
  to the sink and allocate a new one (\<open>flushed\<close>), store bytes that fit in the block
  (\<open>finish\<close>), count an item start (\<open>marked\<close>), and pass blocks through (\<open>relocated\<close>).
\<close>

definition sealed :: "writer \<Rightarrow> sink_call" where
  "sealed w = AppendBlock (blk w) 0 (cur w) (m_first_offset w) (m_nitems w)"

definition flushed :: "nat \<Rightarrow> writer \<Rightarrow> writer" where
  "flushed BlockSize w = AllocateBlock BlockSize (w\<lparr>m_sink := Some (calls w @ [sealed w])\<rparr>)"

definition finish :: "writer \<Rightarrow> byte list \<Rightarrow> writer" where
  "finish w d =
     w\<lparr>m_block := Some (copy_into d (cur w) (blk w)), m_current := Some (cur w + length d)\<rparr>"

definition marked :: "writer \<Rightarrow> writer" where
  "marked w =
     (if m_nitems w = 0 then w\<lparr>m_first_offset := cur w\<rparr> else w)\<lparr>m_nitems := m_nitems w + 1\<rparr>"

definition relocated :: "nat \<Rightarrow> writer \<Rightarrow> virtual_block list \<Rightarrow> writer" where
  "relocated BlockSize w vbs =
     AllocateBlock BlockSize
       (w\<lparr>m_sink := Some (calls w @ (if cur w \<noteq> 0 \<or> m_nitems w \<noteq> 0 then [sealed w] else [])
                              @ map AppendVirtualBlock vbs)\<rparr>)"

text \<open>
  The bytes of a call's valid range, the byte stream the sink has received, and the stream
  written so far: what the sink has, then the bytes before the cursor.
\<close>

fun valid_bytes :: "sink_call \<Rightarrow> byte list" where
  "valid_bytes (AppendBlock b lo hi f n) = take (hi - lo) (drop lo b)"
| "valid_bytes (AppendVirtualBlock vb) = take (vb_end vb - vb_begin vb) (drop (vb_begin vb) (vb_block vb))"
| "valid_bytes SinkClose = []"

definition sink_stream :: "sink_call list \<Rightarrow> byte list" where
  "sink_stream cs = concat (map valid_bytes cs)"

definition stream :: "writer \<Rightarrow> byte list" where
  "stream w = sink_stream (calls w) @ take (cur w) (blk w)"

text \<open>
  \<open>steps C forced w S ps w'\<close>: elementary steps lead from \<open>w\<close> to \<open>w'\<close>, storing the bytes
  \<open>S\<close> and counting item starts at the positions \<open>ps\<close> of \<open>S\<close>. A block is handed over when
  it is full (\<open>seal\<close>); with \<open>forced\<close> also by \<^verbatim>\<open>Flush()\<close> and \<^verbatim>\<open>AppendBlocks\<close> at any fill
  level.
\<close>

inductive steps :: "nat \<Rightarrow> bool \<Rightarrow> writer \<Rightarrow> byte list \<Rightarrow> nat list \<Rightarrow> writer \<Rightarrow> bool"
  for C :: nat and forced :: bool and w :: writer where
  nil: "steps C forced w [] [] w"
| copy: "steps C forced w S ps w1 \<Longrightarrow> cur w1 + length d \<le> C \<Longrightarrow>
         steps C forced w (S @ d) ps (finish w1 d)"
| seal: "steps C forced w S ps w1 \<Longrightarrow> cur w1 = C \<Longrightarrow> steps C forced w S ps (flushed C w1)"
| mark: "steps C forced w S ps w1 \<Longrightarrow> cur w1 < C \<Longrightarrow>
         steps C forced w S (ps @ [length S]) (marked w1)"
| flush: "steps C forced w S ps w1 \<Longrightarrow> forced \<Longrightarrow> steps C forced w S ps (flushed C w1)"
| reloc: "steps C forced w S ps w1 \<Longrightarrow> forced \<Longrightarrow>
          steps C forced w (S @ sink_stream (map AppendVirtualBlock vbs)) ps (relocated C w1 vbs)"

section \<open>Items\<close>

text \<open>
  An item is written either by \<^verbatim>\<open>MarkItem()\<close> followed by calls of \<^verbatim>\<open>Append\<close> and \<^verbatim>\<open>PutByte\<close>
  (\<open>Marked\<close>), or by \<^verbatim>\<open>operator()\<close> (\<open>Generic\<close>, with the type's hash code and the calls of its
  serializer). \<open>item_bytes\<close> are the bytes it puts on the stream, \<open>item_starts\<close> the
  positions in the stream of the first byte of each item of a sequence.
\<close>

fun call_bytes :: "write_call \<Rightarrow> byte list" where
  "call_bytes (CallAppend d) = d"
| "call_bytes (CallPutByte x) = [x]"

definition ser_bytes :: "write_call list \<Rightarrow> byte list" where
  "ser_bytes ser = concat (map call_bytes ser)"

datatype item = Marked "write_call list" | Generic "byte list" "write_call list"

fun call_op :: "write_call \<Rightarrow> op" where
  "call_op (CallAppend d) = OpAppend d"
| "call_op (CallPutByte x) = OpPutByte x"

fun item_ops :: "item \<Rightarrow> op list" where
  "item_ops (Marked ser) = OpMarkItem # map call_op ser"
| "item_ops (Generic h ser) = [OpWrite h ser]"

fun item_bytes :: "bool \<Rightarrow> item \<Rightarrow> byte list" where
  "item_bytes sv (Marked ser) = ser_bytes ser"
| "item_bytes sv (Generic h ser) = (if sv then h else []) @ ser_bytes ser"

text \<open>The bytes and the item starts of a sequence of calls; the calls that write, and
  the calls other than \<^verbatim>\<open>Close()\<close>.\<close>

fun op_bytes :: "bool \<Rightarrow> op \<Rightarrow> byte list" where
  "op_bytes sv OpMarkItem = []"
| "op_bytes sv (OpWrite h ser) = (if sv then h else []) @ ser_bytes ser"
| "op_bytes sv (OpAppend d) = d"
| "op_bytes sv (OpPutByte x) = [x]"
| "op_bytes sv OpFlush = []"
| "op_bytes sv (OpAppendBlocks vbs) = sink_stream (map AppendVirtualBlock vbs)"
| "op_bytes sv OpClose = []"

fun op_marks :: "op \<Rightarrow> nat list" where
  "op_marks OpMarkItem = [0]"
| "op_marks (OpWrite h ser) = [0]"
| "op_marks _ = []"

fun ops_bytes :: "bool \<Rightarrow> op list \<Rightarrow> byte list" where
  "ops_bytes sv [] = []"
| "ops_bytes sv (c # cs) = op_bytes sv c @ ops_bytes sv cs"

fun ops_marks :: "bool \<Rightarrow> op list \<Rightarrow> nat list" where
  "ops_marks sv [] = []"
| "ops_marks sv (c # cs) =
     op_marks c @ map (\<lambda>p. length (op_bytes sv c) + p) (ops_marks sv cs)"

fun item_starts :: "bool \<Rightarrow> item list \<Rightarrow> nat list" where
  "item_starts sv [] = []"
| "item_starts sv (it # its) =
     0 # map (\<lambda>p. length (item_bytes sv it) + p) (item_starts sv its)"

fun is_write :: "op \<Rightarrow> bool" where
  "is_write OpMarkItem = True"
| "is_write (OpWrite h ser) = True"
| "is_write (OpAppend d) = True"
| "is_write (OpPutByte x) = True"
| "is_write _ = False"

fun is_open :: "op \<Rightarrow> bool" where
  "is_open OpClose = False"
| "is_open _ = True"

text \<open>What \<^verbatim>\<open>Close()\<close> hands to the sink before it closes it.\<close>

definition closing :: "writer \<Rightarrow> sink_call list" where
  "closing w = (if cur w \<noteq> 0 \<or> m_nitems w \<noteq> 0 then [sealed w] else [])"

section \<open>Predicates on the sink's calls\<close>

text \<open>A block with item count zero has first-item offset zero.\<close>

fun zero_first_call :: "sink_call \<Rightarrow> bool" where
  "zero_first_call (AppendBlock b lo hi f n) = (n = 0 \<longrightarrow> f = 0)"
| "zero_first_call (AppendVirtualBlock vb) = True"
| "zero_first_call SinkClose = True"

definition zero_first :: "writer \<Rightarrow> bool" where
  "zero_first w =
     ((m_nitems w = 0 \<longrightarrow> m_first_offset w = 0) \<and> list_all zero_first_call (calls w))"

text \<open>The calls that hand over a block, and the blocks handed over full.\<close>

fun is_block :: "sink_call \<Rightarrow> bool" where
  "is_block (AppendBlock b lo hi f n) = True"
| "is_block (AppendVirtualBlock vb) = True"
| "is_block SinkClose = False"

fun is_full :: "nat \<Rightarrow> sink_call \<Rightarrow> bool" where
  "is_full C (AppendBlock b lo hi f n) = (lo = 0 \<and> hi = C \<and> length b = C)"
| "is_full C (AppendVirtualBlock vb) = False"
| "is_full C SinkClose = False"

text \<open>The calls that only store bytes.\<close>

fun is_bytes_op :: "op \<Rightarrow> bool" where
  "is_bytes_op (OpAppend d) = True"
| "is_bytes_op (OpPutByte x) = True"
| "is_bytes_op _ = False"

text \<open>
  Item counts and first-item offsets. \<open>starts_in s len ps\<close> are the item starts among \<open>ps\<close>
  that lie in the range of \<open>len\<close> bytes from position \<open>s\<close> of the stream. A block whose valid
  range is that range has the right metadata (\<open>meta_ok\<close>) when its item count is their
  number and, if there is one, its first-item offset is the offset of the earliest.
  \<open>blocks_ok ps s log\<close> checks every block of \<open>log\<close>, the first one starting at position \<open>s\<close>.
\<close>

definition starts_in :: "nat \<Rightarrow> nat \<Rightarrow> nat list \<Rightarrow> nat list" where
  "starts_in s len ps = filter (\<lambda>p. s \<le> p \<and> p < s + len) ps"

definition meta_ok :: "nat list \<Rightarrow> nat \<Rightarrow> nat \<Rightarrow> nat \<Rightarrow> nat \<Rightarrow> bool" where
  "meta_ok ps s len f n =
     (n = length (starts_in s len ps) \<and>
      (0 < n \<longrightarrow> s + f \<in> set (starts_in s len ps) \<and> (\<forall>p\<in>set (starts_in s len ps). s + f \<le> p)))"

fun blocks_ok :: "nat list \<Rightarrow> nat \<Rightarrow> sink_call list \<Rightarrow> bool" where
  "blocks_ok ps s [] = True"
| "blocks_ok ps s (AppendBlock b lo hi f n # cs) =
     (meta_ok ps s (hi - lo) f n \<and> blocks_ok ps (s + (hi - lo)) cs)"
| "blocks_ok ps s (AppendVirtualBlock vb # cs) = blocks_ok ps (s + (vb_end vb - vb_begin vb)) cs"
| "blocks_ok ps s (SinkClose # cs) = blocks_ok ps s cs"

text \<open>The number of stream bytes in the valid ranges of a list of calls, and the invariant
  that ties the counters of the block being filled to the item starts so far.\<close>

fun span :: "sink_call list \<Rightarrow> nat" where
  "span [] = 0"
| "span (AppendBlock b lo hi f n # cs) = (hi - lo) + span cs"
| "span (AppendVirtualBlock vb # cs) = (vb_end vb - vb_begin vb) + span cs"
| "span (SinkClose # cs) = span cs"





section \<open>The calls as elementary steps\<close>

subsection \<open>Fields after a step\<close>

lemma sel_AllocateBlock [simp]:
  "blk (AllocateBlock C w) = replicate C 0"
  "cur (AllocateBlock C w) = 0"
  "calls (AllocateBlock C w) = calls w"
  "m_nitems (AllocateBlock C w) = 0"
  "m_first_offset (AllocateBlock C w) = 0"
  "m_sink (AllocateBlock C w) = m_sink w"
  "m_closed (AllocateBlock C w) = m_closed w"
  "m_end (AllocateBlock C w) = C"
  by (simp_all add: AllocateBlock_def blk_def cur_def calls_def)

lemma sel_upd [simp]:
  "calls (w\<lparr>m_sink := Some cs\<rparr>) = cs"
  "calls (w\<lparr>m_block := b\<rparr>) = calls w"
  "calls (w\<lparr>m_current := c\<rparr>) = calls w"
  "calls (w\<lparr>m_nitems := n\<rparr>) = calls w"
  "calls (w\<lparr>m_first_offset := f\<rparr>) = calls w"
  "blk (w\<lparr>m_block := Some bb\<rparr>) = bb"
  "blk (w\<lparr>m_sink := s\<rparr>) = blk w"
  "blk (w\<lparr>m_current := c\<rparr>) = blk w"
  "blk (w\<lparr>m_nitems := n\<rparr>) = blk w"
  "blk (w\<lparr>m_first_offset := f\<rparr>) = blk w"
  "cur (w\<lparr>m_current := Some k\<rparr>) = k"
  "cur (w\<lparr>m_sink := s\<rparr>) = cur w"
  "cur (w\<lparr>m_block := b\<rparr>) = cur w"
  "cur (w\<lparr>m_nitems := n\<rparr>) = cur w"
  "cur (w\<lparr>m_first_offset := f\<rparr>) = cur w"
  by (simp_all add: blk_def cur_def calls_def)

lemma sel_flushed [simp]:
  "blk (flushed C w) = replicate C 0"
  "cur (flushed C w) = 0"
  "calls (flushed C w) = calls w @ [sealed w]"
  "m_nitems (flushed C w) = 0"
  "m_first_offset (flushed C w) = 0"
  by (simp_all add: flushed_def)

lemma sel_finish [simp]:
  "blk (finish w d) = copy_into d (cur w) (blk w)"
  "cur (finish w d) = cur w + length d"
  "calls (finish w d) = calls w"
  "m_nitems (finish w d) = m_nitems w"
  "m_first_offset (finish w d) = m_first_offset w"
  by (simp_all add: finish_def)

lemma sel_marked [simp]:
  "blk (marked w) = blk w"
  "cur (marked w) = cur w"
  "calls (marked w) = calls w"
  "m_nitems (marked w) = m_nitems w + 1"
  "m_first_offset (marked w) = (if m_nitems w = 0 then cur w else m_first_offset w)"
  by (simp_all add: marked_def)

lemma sel_relocated [simp]:
  "blk (relocated C w vbs) = replicate C 0"
  "cur (relocated C w vbs) = 0"
  "calls (relocated C w vbs) =
     calls w @ (if cur w \<noteq> 0 \<or> m_nitems w \<noteq> 0 then [sealed w] else []) @ map AppendVirtualBlock vbs"
  "m_nitems (relocated C w vbs) = 0"
  "m_first_offset (relocated C w vbs) = 0"
  by (simp_all add: relocated_def)

subsection \<open>The invariant is kept\<close>

lemma ready_fresh: "ready C (BlockWriterBase C (Some cs))"
  by (simp add: ready_def holds_block_def BlockWriterBase_def AllocateBlock_def blk_def cur_def calls_def)

lemma ready_AllocateBlock:
  "m_sink w = Some cs \<Longrightarrow> \<not> m_closed w \<Longrightarrow> ready C (AllocateBlock C w)"
  by (simp add: ready_def holds_block_def AllocateBlock_def blk_def cur_def calls_def)

lemma ready_flushed: "ready C w \<Longrightarrow> ready C (flushed C w)"
  unfolding flushed_def by (rule ready_AllocateBlock) (simp_all add: ready_def)

lemma ready_relocated: "ready C w \<Longrightarrow> ready C (relocated C w vbs)"
  unfolding relocated_def by (rule ready_AllocateBlock) (simp_all add: ready_def)

lemma length_copy_into [simp]: "length (copy_into xs pos b) = length b"
  by (induction xs arbitrary: pos b) simp_all

lemma ready_finish: "ready C w \<Longrightarrow> cur w + length d \<le> C \<Longrightarrow> ready C (finish w d)"
  by (simp add: ready_def holds_block_def finish_def blk_def cur_def calls_def)

lemma ready_marked: "ready C w \<Longrightarrow> ready C (marked w)"
  by (simp add: ready_def holds_block_def marked_def blk_def cur_def calls_def)

lemma steps_ready: "steps C a w S ps w' \<Longrightarrow> ready C w \<Longrightarrow> ready C w'"
  by (induction rule: steps.induct)
     (simp_all add: ready_finish ready_flushed ready_marked ready_relocated)

subsection \<open>What each call does on a ready writer\<close>

lemma FlushBlock_ready:
  "ready C w \<Longrightarrow> FlushBlock w = Inr (w\<lparr>m_sink := Some (calls w @ [sealed w])\<rparr>)"
  by (simp add: ready_def holds_block_def FlushBlock_def sealed_def)

lemma Flush_ready: "ready C w \<Longrightarrow> Flush C w = Inr (flushed C w)"
  by (simp add: Flush_def FlushBlock_ready flushed_def)

lemma copy_advance_ready:
  "ready C w \<Longrightarrow> cur w + length d \<le> C \<Longrightarrow> copy_advance w d = Inr (finish w d)"
  by (simp add: ready_def holds_block_def copy_advance_def finish_def)

lemma store_byte_ready:
  "ready C w \<Longrightarrow> cur w < C \<Longrightarrow> store_byte w x = Inr (finish w [x])"
  by (simp add: ready_def holds_block_def store_byte_def finish_def)

lemma MarkItem_ready:
  assumes "ready C w"
  shows "MarkItem C w = Inr (marked (if cur w = C then flushed C w else w))"
proof -
  have r: "ready C (if cur w = C then flushed C w else w)"
    using assms by (simp add: ready_flushed)
  have e: "(if m_current w = Some (m_end w) then Flush C w else Inr w)
           = Inr (if cur w = C then flushed C w else w)"
    using assms by (simp add: Flush_ready) (simp add: ready_def holds_block_def)
  show ?thesis
    unfolding MarkItem_def e using r
    by (simp add: ready_def holds_block_def marked_def)
qed

lemma PutByte_ready:
  assumes "ready C w" and "0 < C"
  shows "PutByte C w x = Inr (finish (if cur w < C then w else flushed C w) [x])"
proof -
  have mc: "m_current w = Some (cur w)" "m_end w = C" "\<not> m_closed w"
    using assms by (simp_all add: ready_def holds_block_def)
  have sb: "store_byte (flushed C w) x = Inr (finish (flushed C w) [x])"
    using assms by (intro store_byte_ready [of C]) (simp_all add: ready_flushed)
  show ?thesis
    using assms
    by (simp add: PutByte_def mc Flush_ready store_byte_ready sb)
qed

lemma MaybeFlushBlock_ready:
  assumes "holds_block C w" and "m_sink w = Some cs"
  shows "MaybeFlushBlock w =
     Inr (if cur w \<noteq> 0 \<or> m_nitems w \<noteq> 0
          then w\<lparr>m_sink := Some (cs @ [sealed w]), m_nitems := 0, m_block := None, m_current := None\<rparr>
          else w)"
  using assms
  by (auto simp add: MaybeFlushBlock_def FlushBlock_def holds_block_def sealed_def)

lemma Close_ready:
  assumes "ready C w"
  shows "Close w =
     Inr (if cur w \<noteq> 0 \<or> m_nitems w \<noteq> 0
          then w\<lparr>m_closed := True, m_sink := Some (calls w @ [sealed w, SinkClose]),
                 m_nitems := 0, m_block := None, m_current := None\<rparr>
          else w\<lparr>m_closed := True, m_sink := Some (calls w @ [SinkClose])\<rparr>)"
proof -
  have h: "holds_block C (w\<lparr>m_closed := True\<rparr>)" and s: "m_sink (w\<lparr>m_closed := True\<rparr>) = Some (calls w)"
    and c: "\<not> m_closed w"
    using assms by (simp_all add: ready_def holds_block_def blk_def cur_def)
  have sel: "cur (w\<lparr>m_closed := True\<rparr>) = cur w" "sealed (w\<lparr>m_closed := True\<rparr>) = sealed w"
    by (simp_all add: cur_def sealed_def blk_def)
  have ms: "m_sink w = Some (calls w)"
    using assms by (simp add: ready_def)
  show ?thesis
    unfolding Close_def MaybeFlushBlock_ready [OF h s] sel
    using c by (simp add: ms)
qed

lemma AppendBlocks_ready:
  assumes "ready C w"
  shows "AppendBlocks C w vbs = Inr (relocated C w vbs)"
proof -
  have h: "holds_block C w" and s: "m_sink w = Some (calls w)"
    using assms by (simp_all add: ready_def)
  show ?thesis
    unfolding AppendBlocks_def MaybeFlushBlock_ready [OF h s]
    by (simp add: relocated_def AllocateBlock_def s)
qed

subsection \<open>The loop of Append\<close>

text \<open>
  One unfolding of the loop on a ready writer, and a rule for it: the loop returns for every
  block size above zero, since each round but the first takes \<open>BlockSize\<close> bytes off the
  range and the first leaves the cursor at the start of a block.
\<close>

lemma append_loop_ready:
  assumes "ready C w"
  shows "append_loop C w d =
     (if C < cur w + length d
      then append_loop C (flushed C (finish w (take (C - cur w) d))) (drop (C - cur w) d)
      else Some (Inr (finish w d)))"
proof (cases "C < cur w + length d")
  case True
  let ?p = "C - cur w"
  have cw: "cur w \<le> C" and mc: "m_current w = Some (cur w)" and me: "m_end w = C"
    using assms by (simp_all add: ready_def holds_block_def)
  have len: "cur w + length (take ?p d) \<le> C" using True cw by simp
  have c1: "copy_advance w (take ?p d) = Inr (finish w (take ?p d))"
    by (rule copy_advance_ready [OF assms len])
  have f1: "Flush C (finish w (take ?p d)) = Inr (flushed C (finish w (take ?p d)))"
    by (rule Flush_ready [OF ready_finish [OF assms len]])
  show ?thesis
    using cw by (subst append_loop.simps) (simp add: mc me True c1 f1 Let_def)
next
  case False
  have mc: "m_current w = Some (cur w)" and me: "m_end w = C"
    using assms by (simp_all add: ready_def holds_block_def)
  from False have le: "cur w + length d \<le> C" by simp
  show ?thesis
    by (subst append_loop.simps) (simp add: mc me False copy_advance_ready [OF assms le])
qed

lemma append_loop_rule:
  assumes C: "0 < C"
    and r: "ready C w"
    and I: "I w d"
    and step: "\<And>w d. ready C w \<Longrightarrow> I w d \<Longrightarrow> C < cur w + length d \<Longrightarrow>
                 I (flushed C (finish w (take (C - cur w) d))) (drop (C - cur w) d)"
    and fin: "\<And>w d. ready C w \<Longrightarrow> I w d \<Longrightarrow> cur w + length d \<le> C \<Longrightarrow> Q (finish w d)"
  shows "\<exists>w'. append_loop C w d = Some (Inr w') \<and> Q w'"
  using r I
proof (induction "2 * length d + (if cur w = C then 1 else 0)" arbitrary: w d rule: less_induct)
  case less
  show ?case
  proof (cases "C < cur w + length d")
    case True
    let ?w = "flushed C (finish w (take (C - cur w) d))" and ?d = "drop (C - cur w) d"
    have cw: "cur w \<le> C" using less.prems(1) by (simp add: ready_def holds_block_def)
    have len: "cur w + length (take (C - cur w) d) \<le> C" using True cw by simp
    have rw: "ready C ?w"
      by (rule ready_flushed [OF ready_finish [OF less.prems(1) len]])
    have "2 * length ?d + (if cur ?w = C then 1 else 0) < 2 * length d + (if cur w = C then 1 else 0)"
      using True cw C by (auto split: if_splits)
    from less.hyps [OF this rw step [OF less.prems True]]
    show ?thesis by (simp add: append_loop_ready [OF less.prems(1)] True)
  next
    case False
    then have le: "cur w + length d \<le> C" by simp
    show ?thesis
      using fin [OF less.prems le]
      by (simp add: append_loop_ready [OF less.prems(1)] False)
  qed
qed

subsection \<open>Each call is a sequence of steps\<close>

lemma steps_trans:
  assumes "steps C a w1 S' ps' w2" and "steps C a w S ps w1"
  shows "steps C a w (S @ S') (ps @ map (\<lambda>p. length S + p) ps') w2"
  using assms
proof (induction rule: steps.induct)
  case nil
  then show ?case by simp
next
  case (copy S' ps' w2 d)
  from steps.copy [OF copy.IH [OF copy.prems] copy.hyps(2)] show ?case by simp
next
  case (seal S' ps' w2)
  from steps.seal [OF seal.IH [OF seal.prems] seal.hyps(2)] show ?case .
next
  case (mark S' ps' w2)
  from steps.mark [OF mark.IH [OF mark.prems] mark.hyps(2)] show ?case by simp
next
  case (flush S' ps' w2)
  from steps.flush [OF flush.IH [OF flush.prems] flush.hyps(2)] show ?case .
next
  case (reloc S' ps' w2 vbs)
  from steps.reloc [OF reloc.IH [OF reloc.prems] reloc.hyps(2)] show ?case by simp
qed

lemma steps_copy1: "cur w + length d \<le> C \<Longrightarrow> steps C a w d [] (finish w d)"
  using steps.copy [OF steps.nil, of w d C a] by simp

lemma MarkItem_steps:
  assumes "0 < C" and "ready C w"
  shows "\<exists>w'. MarkItem C w = Inr w' \<and> steps C a w [] [0] w'"
proof -
  let ?w1 = "if cur w = C then flushed C w else w"
  have s1: "steps C a w [] [] ?w1"
    using steps.seal [OF steps.nil, of w C a] by (simp add: steps.nil)
  have "cur ?w1 < C"
    using assms by (auto simp: ready_def holds_block_def)
  from steps.mark [OF s1 this] show ?thesis
    by (simp add: MarkItem_ready [OF assms(2)])
qed

lemma PutByte_steps:
  assumes "0 < C" and "ready C w"
  shows "\<exists>w'. PutByte C w x = Inr w' \<and> steps C a w [x] [] w'"
proof -
  let ?w1 = "if cur w < C then w else flushed C w"
  have cw: "cur w \<le> C" using assms by (simp add: ready_def holds_block_def)
  have s1: "steps C a w [] [] ?w1"
    using steps.seal [OF steps.nil, of w C a] cw by (simp add: steps.nil)
  have "cur ?w1 + length [x] \<le> C"
    using assms by auto
  from steps.copy [OF s1 this] show ?thesis
    by (simp add: PutByte_ready [OF assms(2,1)])
qed

lemma Append_steps:
  assumes "0 < C" and "ready C w"
  shows "\<exists>w'. Append C w d = Some (Inr w') \<and> steps C a w d [] w'"
proof -
  let ?I = "\<lambda>w1 d1. \<exists>S. steps C a w S [] w1 \<and> S @ d1 = d"
  let ?Q = "\<lambda>w'. steps C a w d [] w'"
  have "\<exists>w'. append_loop C w d = Some (Inr w') \<and> ?Q w'"
  proof (rule append_loop_rule [where I = ?I, OF assms])
    show "?I w d" using steps.nil [of C a w] by simp
  next
    fix w1 d1 assume r: "ready C w1" and I: "?I w1 d1" and big: "C < cur w1 + length d1"
    from I obtain S where S: "steps C a w S [] w1" "S @ d1 = d" by blast
    have cw: "cur w1 \<le> C" using r by (simp add: ready_def holds_block_def)
    have len: "cur w1 + length (take (C - cur w1) d1) \<le> C" using big cw by simp
    have full: "cur (finish w1 (take (C - cur w1) d1)) = C" using big cw by simp
    from steps.seal [OF steps.copy [OF S(1) len] full]
    have "steps C a w (S @ take (C - cur w1) d1) [] (flushed C (finish w1 (take (C - cur w1) d1)))" .
    moreover have "(S @ take (C - cur w1) d1) @ drop (C - cur w1) d1 = d"
      using S(2) by simp
    ultimately show "?I (flushed C (finish w1 (take (C - cur w1) d1))) (drop (C - cur w1) d1)"
      by blast
  next
    fix w1 d1 assume r: "ready C w1" and I: "?I w1 d1" and le: "cur w1 + length d1 \<le> C"
    from I obtain S where S: "steps C a w S [] w1" "S @ d1 = d" by blast
    from steps.copy [OF S(1) le] S(2) show "?Q (finish w1 d1)" by simp
  qed
  moreover have "\<not> m_closed w" using assms by (simp add: ready_def)
  ultimately show ?thesis by (simp add: Append_def)
qed

lemma steps_bytes_only:
  assumes "steps C a w1 S' [] w2" and "steps C a w S ps w1"
  shows "steps C a w (S @ S') ps w2"
  using steps_trans [OF assms] by simp

lemma apply_call_steps:
  assumes "0 < C" and "ready C w"
  shows "\<exists>w'. apply_call C c w = Some (Inr w') \<and> steps C a w (call_bytes c) [] w'"
proof (cases c)
  case (CallAppend d)
  then show ?thesis using Append_steps [OF assms, of d a] by simp
next
  case (CallPutByte x)
  then show ?thesis using PutByte_steps [OF assms, of x a] by simp
qed

lemma Serialize_steps:
  assumes "0 < C" and "ready C w"
  shows "\<exists>w'. Serialize C ser w = Some (Inr w') \<and> steps C a w (ser_bytes ser) [] w'"
  using assms(2)
proof (induction ser arbitrary: w)
  case Nil
  then show ?case by (simp add: ser_bytes_def steps.nil)
next
  case (Cons c ser)
  from apply_call_steps [OF assms(1) Cons.prems, of c a]
  obtain w1 where w1: "apply_call C c w = Some (Inr w1)" "steps C a w (call_bytes c) [] w1"
    by blast
  from Cons.IH [OF steps_ready [OF w1(2) Cons.prems]]
  obtain w2 where w2: "Serialize C ser w1 = Some (Inr w2)" "steps C a w1 (ser_bytes ser) [] w2"
    by blast
  from steps_bytes_only [OF w2(2) w1(2)] w1(1) w2(1)
  show ?case by (simp add: ser_bytes_def)
qed

lemma write_item_steps:
  assumes "0 < C" and "ready C w"
  shows "\<exists>w'. write_item C sv h ser w = Some (Inr w') \<and>
           steps C a w ((if sv then h else []) @ ser_bytes ser) [0] w'"
proof -
  from MarkItem_steps [OF assms, of a]
  obtain w1 where w1: "MarkItem C w = Inr w1" "steps C a w [] [0] w1" by blast
  have r1: "ready C w1" by (rule steps_ready [OF w1(2) assms(2)])
  have "\<exists>w2. (if sv then Put C w1 h else Some (Inr w1)) = Some (Inr w2) \<and>
          steps C a w1 (if sv then h else []) [] w2"
    using Append_steps [OF assms(1) r1, of h a] by (simp add: Put_def steps.nil)
  then obtain w2 where w2: "(if sv then Put C w1 h else Some (Inr w1)) = Some (Inr w2)"
    "steps C a w1 (if sv then h else []) [] w2" by blast
  have r2: "ready C w2" by (rule steps_ready [OF w2(2) r1])
  from Serialize_steps [OF assms(1) r2, of ser a]
  obtain w3 where w3: "Serialize C ser w2 = Some (Inr w3)" "steps C a w2 (ser_bytes ser) [] w3"
    by blast
  have "steps C a w ((if sv then h else []) @ ser_bytes ser) [0] w3"
    using steps_bytes_only [OF w3(2) steps_bytes_only [OF w2(2) w1(2)]] by simp
  moreover have "\<not> m_closed w" using assms(2) by (simp add: ready_def)
  ultimately show ?thesis
    unfolding write_item_def using w1(1) w2(1) w3(1) by simp
qed

lemma exec_steps:
  assumes "0 < C" and "ready C w" and "is_open c" and "a \<or> is_write c"
  shows "\<exists>w'. exec C sv c w = Some (Inr w') \<and> steps C a w (op_bytes sv c) (op_marks c) w'"
proof (cases c)
  case OpMarkItem
  then show ?thesis using MarkItem_steps [OF assms(1,2), of a] by simp
next
  case (OpWrite h ser)
  then show ?thesis using write_item_steps [OF assms(1,2), of sv h ser a] by simp
next
  case (OpAppend d)
  then show ?thesis using Append_steps [OF assms(1,2), of d a] by simp
next
  case (OpPutByte x)
  then show ?thesis using PutByte_steps [OF assms(1,2), of x a] by simp
next
  case OpFlush
  with assms(4) have a by simp
  from steps.flush [OF steps.nil this, of C w] OpFlush show ?thesis
    by (simp add: Flush_ready [OF assms(2)])
next
  case (OpAppendBlocks vbs)
  with assms(4) have a by simp
  from steps.reloc [OF steps.nil this, of C w vbs] OpAppendBlocks show ?thesis
    by (simp add: AppendBlocks_ready [OF assms(2)])
next
  case OpClose
  with assms(3) show ?thesis by simp
qed

lemma run_steps:
  assumes "0 < C" and "ready C w" and "\<forall>c\<in>set cs. is_open c \<and> (a \<or> is_write c)"
  shows "\<exists>w'. run C sv cs w = Some (Inr w') \<and> steps C a w (ops_bytes sv cs) (ops_marks sv cs) w'"
  using assms(2,3)
proof (induction cs arbitrary: w)
  case Nil
  then show ?case by (simp add: steps.nil)
next
  case (Cons c cs)
  from Cons.prems(2) have c: "is_open c" "a \<or> is_write c" by simp_all
  from exec_steps [OF assms(1) Cons.prems(1) c, of sv]
  obtain w1 where w1: "exec C sv c w = Some (Inr w1)" "steps C a w (op_bytes sv c) (op_marks c) w1"
    by blast
  from Cons.prems(2) have "\<forall>c\<in>set cs. is_open c \<and> (a \<or> is_write c)" by simp
  from Cons.IH [OF steps_ready [OF w1(2) Cons.prems(1)] this]
  obtain w2 where w2: "run C sv cs w1 = Some (Inr w2)"
    "steps C a w1 (ops_bytes sv cs) (ops_marks sv cs) w2" by blast
  from steps_trans [OF w2(2) w1(2)] w1(1) w2(1) show ?case by simp
qed

lemma run_append:
  "run C sv (cs @ ds) w =
     (case run C sv cs w of None \<Rightarrow> None | Some (Inl e) \<Rightarrow> Some (Inl e)
      | Some (Inr w1) \<Rightarrow> run C sv ds w1)"
  by (induction cs arbitrary: w) (simp_all split: option.splits sum.splits)

section \<open>The byte stream\<close>

lemma take_copy_into:
  "pos + length xs \<le> length b \<Longrightarrow> take (pos + length xs) (copy_into xs pos b) = take pos b @ xs"
proof (induction xs arbitrary: pos b)
  case Nil
  then show ?case by simp
next
  case (Cons x xs)
  have "take (Suc pos + length xs) (copy_into xs (Suc pos) (b[pos := x]))
        = take (Suc pos) (b[pos := x]) @ xs"
    using Cons.prems by (intro Cons.IH) simp
  moreover have "take (Suc pos) (b[pos := x]) = take pos b @ [x]"
    using Cons.prems by (simp add: take_Suc_conv_app_nth)
  ultimately show ?case by simp
qed

lemma sink_stream_simps [simp]:
  "sink_stream [] = []"
  "sink_stream (cs @ ds) = sink_stream cs @ sink_stream ds"
  "sink_stream (c # cs) = valid_bytes c @ sink_stream cs"
  by (simp_all add: sink_stream_def)

lemma valid_bytes_sealed [simp]: "valid_bytes (sealed w) = take (cur w) (blk w)"
  by (simp add: sealed_def)

lemma stream_finish:
  assumes "ready C w" and "cur w + length d \<le> C"
  shows "stream (finish w d) = stream w @ d"
proof -
  have "length (blk w) = C" using assms(1) by (simp add: ready_def holds_block_def)
  with assms(2) show ?thesis by (simp add: stream_def take_copy_into)
qed

lemma stream_flushed: "stream (flushed C w) = stream w"
  by (simp add: stream_def)

lemma stream_marked: "stream (marked w) = stream w"
  by (simp add: stream_def)

lemma stream_relocated:
  "stream (relocated C w vbs) = stream w @ sink_stream (map AppendVirtualBlock vbs)"
  by (simp add: stream_def)

lemma steps_stream: "steps C a w S ps w' \<Longrightarrow> ready C w \<Longrightarrow> stream w' = stream w @ S"
proof (induction rule: steps.induct)
  case nil
  then show ?case by simp
next
  case (copy S ps w1 d)
  from stream_finish [OF steps_ready [OF copy.hyps(1) copy.prems] copy.hyps(2)] copy.IH [OF copy.prems]
  show ?case by simp
next
  case (seal S ps w1)
  then show ?case by (simp add: stream_flushed)
next
  case (mark S ps w1)
  then show ?case by (simp add: stream_marked)
next
  case (flush S ps w1)
  then show ?case by (simp add: stream_flushed)
next
  case (reloc S ps w1 vbs)
  then show ?case by (simp add: stream_relocated)
qed

lemma stream_fresh: "stream (BlockWriterBase C (Some [])) = []"
  by (simp add: stream_def BlockWriterBase_def calls_def cur_def AllocateBlock_def)

lemma calls_fresh: "calls (BlockWriterBase C (Some cs)) = cs"
  by (simp add: BlockWriterBase_def calls_def)

lemma Close_calls:
  assumes "ready C w"
  shows "\<exists>w'. Close w = Inr w' \<and> m_sink w' = Some (calls w @ closing w @ [SinkClose]) \<and> m_closed w'"
  by (simp add: Close_ready [OF assms] closing_def)

lemma stream_closing: "sink_stream (calls w @ closing w @ [SinkClose]) = stream w"
  by (simp add: closing_def stream_def)

lemma ops_bytes_append [simp]: "ops_bytes sv (cs @ ds) = ops_bytes sv cs @ ops_bytes sv ds"
  by (induction cs) simp_all

lemma ops_marks_append [simp]:
  "ops_marks sv (cs @ ds) =
     ops_marks sv cs @ map (\<lambda>p. length (ops_bytes sv cs) + p) (ops_marks sv ds)"
  by (induction cs) (simp_all add: add.assoc)

lemma ops_bytes_calls [simp]: "ops_bytes sv (map call_op ser) = ser_bytes ser"
proof (induction ser)
  case Nil
  then show ?case by (simp add: ser_bytes_def)
next
  case (Cons c ser)
  then show ?case by (cases c) (simp_all add: ser_bytes_def)
qed

lemma ops_marks_calls [simp]: "ops_marks sv (map call_op ser) = []"
proof (induction ser)
  case Nil
  then show ?case by simp
next
  case (Cons c ser)
  then show ?case by (cases c) simp_all
qed

lemma ops_bytes_item [simp]: "ops_bytes sv (item_ops it) = item_bytes sv it"
  by (cases it) simp_all

lemma ops_marks_item [simp]: "ops_marks sv (item_ops it) = [0]"
  by (cases it) simp_all

lemma ops_bytes_items [simp]:
  "ops_bytes sv (concat (map item_ops items)) = concat (map (item_bytes sv) items)"
  by (induction items) simp_all

lemma ops_marks_items [simp]:
  "ops_marks sv (concat (map item_ops items)) = item_starts sv items"
  by (induction items) simp_all

lemma is_write_call_op [simp]: "is_write (call_op c)" "is_open (call_op c)"
  by (cases c; simp)+

lemma item_ops_write: "c \<in> set (item_ops it) \<Longrightarrow> is_open c \<and> is_write c"
  by (cases it) auto

lemma items_ops_write: "\<forall>c\<in>set (concat (map item_ops items)). is_open c \<and> (a \<or> is_write c)"
  by (auto dest: item_ops_write)

lemma run_then_Close:
  assumes "0 < C" and "ready C w" and "\<forall>c\<in>set cs. is_open c \<and> (a \<or> is_write c)"
  shows "\<exists>w1 w'. steps C a w (ops_bytes sv cs) (ops_marks sv cs) w1 \<and>
           run C sv (cs @ [OpClose]) w = Some (Inr w') \<and>
           m_sink w' = Some (calls w1 @ closing w1 @ [SinkClose]) \<and> m_closed w'"
proof -
  from run_steps [OF assms, of sv]
  obtain w1 where w1: "run C sv cs w = Some (Inr w1)"
    "steps C a w (ops_bytes sv cs) (ops_marks sv cs) w1" by blast
  from Close_calls [OF steps_ready [OF w1(2) assms(2)]]
  obtain w' where "Close w1 = Inr w'" "m_sink w' = Some (calls w1 @ closing w1 @ [SinkClose])"
    "m_closed w'" by blast
  with w1 show ?thesis by (auto simp add: run_append)
qed

text \<open>
  Claim C1. For a block size above zero, every finite sequence of items, each written by
  \<^verbatim>\<open>MarkItem()\<close> followed by calls of \<^verbatim>\<open>Append\<close> and \<^verbatim>\<open>PutByte\<close>, or by \<^verbatim>\<open>operator()\<close>, and
  then \<^verbatim>\<open>Close()\<close>: the writer returns without a fault, and the valid byte ranges of the
  blocks the sink received, concatenated in the order of the calls, are the items' bytes in
  the order written.
\<close>

theorem items_stream:
  assumes "0 < BlockSize"
  shows "\<exists>w' cs. run BlockSize sv (concat (map item_ops items) @ [OpClose])
                    (BlockWriterBase BlockSize (Some [])) = Some (Inr w') \<and>
                  m_sink w' = Some cs \<and>
                  sink_stream cs = concat (map (item_bytes sv) items)"
proof -
  let ?w = "BlockWriterBase BlockSize (Some [])"
  from run_then_Close [of BlockSize ?w "concat (map item_ops items)" True sv,
      OF assms ready_fresh items_ops_write]
  obtain w1 w' where w: "steps BlockSize True ?w (concat (map (item_bytes sv) items)) (item_starts sv items) w1"
    "run BlockSize sv (concat (map item_ops items) @ [OpClose]) ?w = Some (Inr w')"
    "m_sink w' = Some (calls w1 @ closing w1 @ [SinkClose])" by auto
  from steps_stream [OF w(1) ready_fresh]
  have "stream w1 = concat (map (item_bytes sv) items)" by (simp add: stream_fresh)
  then have "sink_stream (calls w1 @ closing w1 @ [SinkClose]) = concat (map (item_bytes sv) items)"
    by (simp only: stream_closing)
  with w(2,3) show ?thesis by blast
qed

text \<open>The definitions that evaluate a run on a concrete input.\<close>

lemmas eval_defs = BlockWriterBase_def AllocateBlock_def FlushBlock_def MaybeFlushBlock_def Flush_def
  Close_def Destroy_def AppendBlocks_def MarkItem_def copy_advance_def append_loop.simps Append_def
  store_byte_def PutByte_def Put_def write_item_def sink_stream_def ser_bytes_def

theorem items_stream_witness:
  "(0::nat) < 4 \<and>
   run 4 True (concat (map item_ops
        [Marked [CallAppend [1, 2, 3, 4, 5], CallPutByte 6], Generic [9, 9] [CallAppend [7, 8]]])
        @ [OpClose]) (BlockWriterBase 4 (Some []))
     = Some (Inr \<lparr>m_block = None, m_current = None, m_end = 4, m_nitems = 0, m_first_offset = 0,
          m_sink = Some [AppendBlock [1, 2, 3, 4] 0 4 0 1, AppendBlock [5, 6, 9, 9] 0 4 2 1,
                         AppendBlock [7, 8, 0, 0] 0 2 0 0, SinkClose],
          m_closed = True\<rparr>) \<and>
   sink_stream [AppendBlock [1, 2, 3, 4] 0 4 0 1, AppendBlock [5, 6, 9, 9] 0 4 2 1,
                AppendBlock [7, 8, 0, 0] 0 2 0 0, SinkClose]
     = concat (map (item_bytes True)
        [Marked [CallAppend [1, 2, 3, 4, 5], CallPutByte 6], Generic [9, 9] [CallAppend [7, 8]]])"
  using items_stream [of 4 True
     "[Marked [CallAppend [1, 2, 3, 4, 5], CallPutByte 6], Generic [9, 9] [CallAppend [7, 8]]]"]
  by (simp add: eval_defs eval_nat_numeral)

section \<open>Flush, close and single bytes\<close>

text \<open>
  Claim C4, as the code has it. \<^verbatim>\<open>Flush()\<close> calls \<^verbatim>\<open>FlushBlock()\<close> without looking at the
  fill level: on a writer with a sink attached whose block holds no byte and no item start,
  it hands that block to the sink once, with the empty valid range \<open>[0, 0)\<close> and item count
  zero, and the writer then holds a fresh empty block.
\<close>

theorem flush_empty_block:
  assumes "m_block w = Some b" and "m_current w = Some 0" and "m_nitems w = 0"
    and "m_sink w = Some cs"
  shows "Flush BlockSize w =
           Inr (AllocateBlock BlockSize
                  (w\<lparr>m_sink := Some (cs @ [AppendBlock b 0 0 (m_first_offset w) 0])\<rparr>))"
  using assms by (simp add: Flush_def FlushBlock_def)

theorem flush_empty_block_witness:
  "m_block (BlockWriterBase 2 (Some [])) = Some [0, 0] \<and>
   m_current (BlockWriterBase 2 (Some [])) = Some 0 \<and>
   m_nitems (BlockWriterBase 2 (Some [])) = 0 \<and>
   m_sink (BlockWriterBase 2 (Some [])) = Some [] \<and>
   Flush 2 (BlockWriterBase 2 (Some [])) =
     Inr \<lparr>m_block = Some [0, 0], m_current = Some 0, m_end = 2, m_nitems = 0,
          m_first_offset = 0, m_sink = Some [AppendBlock [0, 0] 0 0 0 0], m_closed = False\<rparr>"
proof -
  have b: "m_block (BlockWriterBase 2 (Some [])) = Some [0, 0]"
    and c: "m_current (BlockWriterBase 2 (Some [])) = Some 0"
    and n: "m_nitems (BlockWriterBase 2 (Some [])) = 0"
    and s: "m_sink (BlockWriterBase 2 (Some [])) = Some []"
    by (simp_all add: BlockWriterBase_def AllocateBlock_def eval_nat_numeral)
  show ?thesis
    using flush_empty_block [OF b c n s, of 2] b c n s
    by (simp add: BlockWriterBase_def AllocateBlock_def eval_nat_numeral)
qed

text \<open>\<^verbatim>\<open>Flush()\<close> on a fresh writer: the sink receives one \<^verbatim>\<open>AppendBlock\<close> call, not none.\<close>

theorem flush_empty_block_counterexample:
  "Flush 4 (BlockWriterBase 4 (Some [])) =
     Inr \<lparr>m_block = Some [0, 0, 0, 0], m_current = Some 0, m_end = 4, m_nitems = 0,
          m_first_offset = 0, m_sink = Some [AppendBlock [0, 0, 0, 0] 0 0 0 0],
          m_closed = False\<rparr>"
  by (simp add: Flush_def FlushBlock_def BlockWriterBase_def AllocateBlock_def eval_nat_numeral)

text \<open>
  Claim C7. On an open writer that holds a block and has a sink, the first \<^verbatim>\<open>Close()\<close>
  hands the block to the sink exactly when the block holds a byte or an item start, then
  calls the sink's \<^verbatim>\<open>Close()\<close> once; a second \<^verbatim>\<open>Close()\<close> and the destructor after it make
  no sink call and leave the state as it is.
\<close>

theorem close_twice:
  assumes "\<not> m_closed w" and "m_block w = Some b" and "m_current w = Some c"
    and "m_sink w = Some cs"
  shows "\<exists>w'. Close w = Inr w' \<and>
           m_sink w' =
             Some (cs @ (if c \<noteq> 0 \<or> m_nitems w \<noteq> 0
                         then [AppendBlock b 0 c (m_first_offset w) (m_nitems w)] else [])
                      @ [SinkClose]) \<and>
           Close w' = Inr w' \<and> Destroy w' = Inr w'"
  using assms by (auto simp add: Close_def Destroy_def MaybeFlushBlock_def FlushBlock_def)

theorem close_twice_witness:
  "\<not> m_closed \<lparr>m_block = Some [7, 0], m_current = Some 1, m_end = 2, m_nitems = 1,
       m_first_offset = 0, m_sink = Some [], m_closed = False\<rparr> \<and>
   (\<exists>w'. Close \<lparr>m_block = Some [7, 0], m_current = Some 1, m_end = 2, m_nitems = 1,
              m_first_offset = 0, m_sink = Some [], m_closed = False\<rparr> = Inr w' \<and>
      m_sink w' = Some [AppendBlock [7, 0] 0 1 0 1, SinkClose] \<and>
      Close w' = Inr w' \<and> Destroy w' = Inr w')"
  using close_twice [of "\<lparr>m_block = Some [7, 0], m_current = Some 1, m_end = 2, m_nitems = 1,
       m_first_offset = 0, m_sink = Some [], m_closed = False\<rparr>" "[7, 0]" 1 "[]"]
  by simp

lemma PutByte_Append_holds:
  assumes "0 < BlockSize" and "holds_block BlockSize w"
  shows "Append BlockSize w [x] = Some (PutByte BlockSize w x)"
proof (cases "m_closed w")
  case True
  then show ?thesis by (simp add: Append_def PutByte_def)
next
  case False
  have mb: "m_block w = Some (blk w)" and len: "length (blk w) = BlockSize"
    and mc: "m_current w = Some (cur w)" and cw: "cur w \<le> BlockSize" and me: "m_end w = BlockSize"
    using assms(2) by (simp_all add: holds_block_def)
  show ?thesis
  proof (cases "cur w < BlockSize")
    case True
    then show ?thesis
      using False
      by (subst Append_def, subst append_loop.simps)
         (simp add: PutByte_def mb mc me len copy_advance_def store_byte_def)
  next
    case full: False
    with cw have eq: "cur w = BlockSize" by simp
    have id: "w\<lparr>m_block := Some (blk w), m_current := Some BlockSize\<rparr> = w"
      using mb mc eq by simp
    have c0: "copy_advance w [] = Inr w"
      by (simp add: copy_advance_def mb mc eq len id)
    show ?thesis
    proof (cases "Flush BlockSize w")
      case (Inl e)
      then show ?thesis
        using False
        by (subst Append_def, subst append_loop.simps)
           (simp add: PutByte_def mc me eq c0)
    next
      case (Inr w2)
      then have w2: "m_block w2 = Some (replicate BlockSize 0)" "m_current w2 = Some 0"
        "m_end w2 = BlockSize"
        by (auto simp add: Flush_def AllocateBlock_def split: sum.splits)
      have "append_loop BlockSize w2 [x] = Some (store_byte w2 x)"
        using assms(1)
        by (subst append_loop.simps) (auto simp add: w2 copy_advance_def store_byte_def)
      then show ?thesis
        using False Inr
        by (subst Append_def, subst append_loop.simps)
           (simp add: PutByte_def mc me eq c0)
    qed
  qed
qed

text \<open>
  Claim C9. For a block size above zero and a writer whose block has that size and whose
  cursor is inside it or at its end (the state invariant of the writer), \<^verbatim>\<open>PutByte(b)\<close> and \<^verbatim>\<open>Append(&b, 1)\<close> return the same
  result: the same fault, or the same writer state with the same sink calls. The writer may
  be open or closed and the sink attached or not.
\<close>

theorem put_byte_append:
  assumes "0 < BlockSize" and "m_block w = Some b" and "length b = BlockSize"
    and "m_current w = Some c" and "c \<le> BlockSize" and "m_end w = BlockSize"
  shows "Append BlockSize w [x] = Some (PutByte BlockSize w x)"
proof -
  have "holds_block BlockSize w"
    using assms(2-6) by (simp add: holds_block_def blk_def cur_def)
  with assms(1) show ?thesis by (rule PutByte_Append_holds)
qed

theorem put_byte_append_witness:
  "(0::nat) < 2 \<and> length [5, 6 :: byte] = 2 \<and> (2::nat) \<le> 2 \<and>
   Append 2 \<lparr>m_block = Some [5, 6], m_current = Some 2, m_end = 2, m_nitems = 1,
       m_first_offset = 0, m_sink = Some [], m_closed = False\<rparr> [9] =
     Some (PutByte 2 \<lparr>m_block = Some [5, 6], m_current = Some 2, m_end = 2, m_nitems = 1,
       m_first_offset = 0, m_sink = Some [], m_closed = False\<rparr> 9) \<and>
   PutByte 2 \<lparr>m_block = Some [5, 6], m_current = Some 2, m_end = 2, m_nitems = 1,
       m_first_offset = 0, m_sink = Some [], m_closed = False\<rparr> 9 =
     Inr \<lparr>m_block = Some [9, 0], m_current = Some 1, m_end = 2, m_nitems = 0,
          m_first_offset = 0, m_sink = Some [AppendBlock [5, 6] 0 2 0 1], m_closed = False\<rparr>"
proof -
  let ?w = "\<lparr>m_block = Some [5, 6], m_current = Some 2, m_end = 2, m_nitems = 1,
       m_first_offset = 0, m_sink = Some [], m_closed = False\<rparr>"
  have p: "PutByte 2 ?w 9 =
     Inr \<lparr>m_block = Some [9, 0], m_current = Some 1, m_end = 2, m_nitems = 0,
          m_first_offset = 0, m_sink = Some [AppendBlock [5, 6] 0 2 0 1], m_closed = False\<rparr>"
    by (simp add: PutByte_def Flush_def FlushBlock_def AllocateBlock_def store_byte_def
        eval_nat_numeral)
  show ?thesis
    using put_byte_append [of 2 ?w "[5, 6]" 2 9] p by simp
qed

text \<open>
  Claim C6 on the code. \<^verbatim>\<open>FlushBlock()\<close> calls \<^verbatim>\<open>sink_->AppendBlock\<close> with no test of
  \<^verbatim>\<open>sink_\<close>, so on a writer built with a null sink \<^verbatim>\<open>Flush()\<close> dereferences the null
  pointer, and so does \<^verbatim>\<open>Close()\<close> once a byte has been written. Only \<^verbatim>\<open>Close()\<close> on a
  block with no byte and no item start returns.
\<close>

theorem null_sink_flush:
  "Flush 4 (BlockWriterBase 4 None) = Inl NullPointer \<and>
   run 4 False [OpPutByte 1, OpClose] (BlockWriterBase 4 None) = Some (Inl NullPointer) \<and>
   run 4 False [OpMarkItem, OpClose] (BlockWriterBase 4 None) = Some (Inl NullPointer) \<and>
   run 4 False [OpClose] (BlockWriterBase 4 None) =
     Some (Inr \<lparr>m_block = Some [0, 0, 0, 0], m_current = Some 0, m_end = 4, m_nitems = 0,
                m_first_offset = 0, m_sink = None, m_closed = True\<rparr>)"
  by (simp add: eval_defs eval_nat_numeral)

text \<open>
  Claim C8 on the code. \<^verbatim>\<open>operator()\<close>, \<^verbatim>\<open>Append\<close> and \<^verbatim>\<open>PutByte\<close> start with
  \<^verbatim>\<open>assert(!closed_)\<close>; \<^verbatim>\<open>MarkItem()\<close> does not. After \<^verbatim>\<open>Close()\<close> on an empty writer,
  \<^verbatim>\<open>MarkItem()\<close> returns and counts an item; after \<^verbatim>\<open>Close()\<close> on a writer that held a byte
  it dereferences the block pointer that \<^verbatim>\<open>MaybeFlushBlock()\<close> has reset.
\<close>

theorem mark_item_after_close:
  "run 4 False [OpClose, OpMarkItem] (BlockWriterBase 4 (Some [])) =
     Some (Inr \<lparr>m_block = Some [0, 0, 0, 0], m_current = Some 0, m_end = 4, m_nitems = 1,
                m_first_offset = 0, m_sink = Some [SinkClose], m_closed = True\<rparr>) \<and>
   run 4 False [OpPutByte 1, OpClose, OpMarkItem] (BlockWriterBase 4 (Some [])) =
     Some (Inl NullPointer) \<and>
   run 4 False [OpClose, OpWrite [] [CallPutByte 1]] (BlockWriterBase 4 (Some [])) =
     Some (Inl AssertionFailed) \<and>
   run 4 False [OpClose, OpAppend [1]] (BlockWriterBase 4 (Some [])) =
     Some (Inl AssertionFailed) \<and>
   run 4 False [OpClose, OpPutByte 1] (BlockWriterBase 4 (Some [])) =
     Some (Inl AssertionFailed)"
  by (simp add: eval_defs eval_nat_numeral)

section \<open>Blocks without an item start\<close>

lemma zero_first_call_sealed:
  "zero_first_call (sealed w) = (m_nitems w = 0 \<longrightarrow> m_first_offset w = 0)"
  by (simp add: sealed_def)

lemma zero_first_reloc: "list_all zero_first_call (map AppendVirtualBlock vbs)"
  by (induction vbs) simp_all

lemma steps_zero_first: "steps C a w S ps w' \<Longrightarrow> zero_first w \<Longrightarrow> zero_first w'"
proof (induction rule: steps.induct)
  case nil
  then show ?case .
next
  case (copy S ps w1 d)
  then show ?case by (simp add: zero_first_def)
next
  case (seal S ps w1)
  then show ?case by (simp add: zero_first_def zero_first_call_sealed)
next
  case (mark S ps w1)
  then show ?case by (simp add: zero_first_def)
next
  case (flush S ps w1)
  then show ?case by (simp add: zero_first_def zero_first_call_sealed)
next
  case (reloc S ps w1 vbs)
  then show ?case by (simp add: zero_first_def zero_first_call_sealed zero_first_reloc)
qed

lemma zero_first_fresh: "zero_first (BlockWriterBase C (Some []))"
  by (simp add: zero_first_def BlockWriterBase_def AllocateBlock_def calls_def)

lemma zero_first_closing:
  assumes "zero_first w"
  shows "list_all zero_first_call (calls w @ closing w @ [SinkClose])"
  using assms by (simp add: zero_first_def closing_def zero_first_call_sealed)

lemma zero_first_call_mem:
  assumes "list_all zero_first_call log" and "AppendBlock b lo hi f 0 \<in> set log"
  shows "f = 0"
proof -
  from assms have "zero_first_call (AppendBlock b lo hi f 0)"
    unfolding list_all_iff by blast
  then show ?thesis by simp
qed

lemma open_ops: "OpClose \<notin> set cs \<Longrightarrow> \<forall>c\<in>set cs. is_open c \<and> (True \<or> is_write c)"
proof
  fix c assume "OpClose \<notin> set cs" and "c \<in> set cs"
  then have "c \<noteq> OpClose" by auto
  then show "is_open c \<and> (True \<or> is_write c)" by (cases c) simp_all
qed

text \<open>
  Claim C5, as the code has it. \<^verbatim>\<open>first_offset_\<close> is a \<^verbatim>\<open>size_t\<close> that \<^verbatim>\<open>AllocateBlock()\<close>
  sets to zero and only \<^verbatim>\<open>MarkItem()\<close> changes: for every sequence of calls on a fresh
  writer that is then closed, each block the writer hands over with item count zero has
  first-item offset zero, the value a first item at offset zero has too. Only the item
  count tells the two apart.
\<close>

theorem zero_count_first_offset:
  assumes "0 < BlockSize" and "OpClose \<notin> set cs"
  shows "\<exists>w' log. run BlockSize sv (cs @ [OpClose]) (BlockWriterBase BlockSize (Some []))
                     = Some (Inr w') \<and>
                   m_sink w' = Some log \<and>
                   (\<forall>b lo hi f. AppendBlock b lo hi f 0 \<in> set log \<longrightarrow> f = 0)"
proof -
  let ?w = "BlockWriterBase BlockSize (Some [])"
  from run_then_Close [of BlockSize ?w cs True sv, OF assms(1) ready_fresh open_ops [OF assms(2)]]
  obtain w1 w' where w: "steps BlockSize True ?w (ops_bytes sv cs) (ops_marks sv cs) w1"
    "run BlockSize sv (cs @ [OpClose]) ?w = Some (Inr w')"
    "m_sink w' = Some (calls w1 @ closing w1 @ [SinkClose])" by blast
  have "zero_first w1" by (rule steps_zero_first [OF w(1) zero_first_fresh])
  then have "list_all zero_first_call (calls w1 @ closing w1 @ [SinkClose])"
    by (rule zero_first_closing)
  then have "\<forall>b lo hi f. AppendBlock b lo hi f 0 \<in> set (calls w1 @ closing w1 @ [SinkClose]) \<longrightarrow> f = 0"
    using zero_first_call_mem by blast
  with w(2,3) show ?thesis by blast
qed

theorem zero_count_first_offset_witness:
  "(0::nat) < 4 \<and> OpClose \<notin> set [OpMarkItem, OpAppend [1, 2, 3, 4, 5], OpFlush] \<and>
   (\<exists>w' log. run 4 False ([OpMarkItem, OpAppend [1, 2, 3, 4, 5], OpFlush] @ [OpClose])
                (BlockWriterBase 4 (Some [])) = Some (Inr w') \<and>
      m_sink w' = Some log \<and>
      log = [AppendBlock [1, 2, 3, 4] 0 4 0 1, AppendBlock [5, 0, 0, 0] 0 1 0 0, SinkClose] \<and>
      (\<forall>b lo hi f. AppendBlock b lo hi f 0 \<in> set log \<longrightarrow> f = 0))"
proof -
  have e: "run 4 False ([OpMarkItem, OpAppend [1, 2, 3, 4, 5], OpFlush] @ [OpClose])
             (BlockWriterBase 4 (Some [])) =
           Some (Inr \<lparr>m_block = Some [0, 0, 0, 0], m_current = Some 0, m_end = 4, m_nitems = 0,
                m_first_offset = 0,
                m_sink = Some [AppendBlock [1, 2, 3, 4] 0 4 0 1, AppendBlock [5, 0, 0, 0] 0 1 0 0,
                               SinkClose],
                m_closed = True\<rparr>)"
    by (simp add: eval_defs eval_nat_numeral)
  show ?thesis
    using zero_count_first_offset [of 4 "[OpMarkItem, OpAppend [1, 2, 3, 4, 5], OpFlush]" False]
    unfolding e by simp
qed

text \<open>An item of five bytes in blocks of four: the first block has first-item offset 0 and
  one item, the second has first-item offset 0 and no item.\<close>

theorem zero_count_first_offset_counterexample:
  "run 4 False [OpMarkItem, OpAppend [1, 2, 3, 4, 5], OpClose] (BlockWriterBase 4 (Some [])) =
     Some (Inr \<lparr>m_block = None, m_current = None, m_end = 4, m_nitems = 0, m_first_offset = 0,
                m_sink = Some [AppendBlock [1, 2, 3, 4] 0 4 0 1, AppendBlock [5, 0, 0, 0] 0 1 0 0,
                               SinkClose],
                m_closed = True\<rparr>)"
  by (simp add: eval_defs eval_nat_numeral)

section \<open>Full blocks\<close>

lemma steps_calls: "steps C a w S ps w' \<Longrightarrow> \<exists>rest. calls w' = calls w @ rest"
  by (induction rule: steps.induct) auto

lemma sealed_eq:
  "m_block w = Some b \<Longrightarrow> m_current w = Some c \<Longrightarrow>
   sealed w = AppendBlock b 0 c (m_first_offset w) (m_nitems w)"
  by (simp add: sealed_def blk_def cur_def)

lemma ready_intro:
  assumes "\<not> m_closed w" and "m_block w = Some b" and "length b = C" and "m_current w = Some c"
    and "c \<le> C" and "m_end w = C" and "m_sink w = Some log"
  shows "ready C w"
  using assms by (simp add: ready_def holds_block_def blk_def cur_def calls_def)

lemma Append_full:
  assumes "0 < C" and "ready C w" and "cur w = C" and "d \<noteq> []"
  shows "\<exists>w' rest. Append C w d = Some (Inr w') \<and> calls w' = calls w @ sealed w # rest"
proof -
  have mb: "m_block w = Some (blk w)" and mc: "m_current w = Some (cur w)"
    and nc: "\<not> m_closed w"
    using assms(2) by (simp_all add: ready_def holds_block_def)
  have id: "finish w [] = w"
    using mb mc by (simp add: finish_def)
  let ?w1 = "flushed C w"
  have r1: "ready C ?w1" by (rule ready_flushed [OF assms(2)])
  from Append_steps [OF assms(1) r1, of d True]
  obtain w' where w': "Append C ?w1 d = Some (Inr w')" "steps C True ?w1 d [] w'" by blast
  from steps_calls [OF w'(2)] obtain rest where rest: "calls w' = calls ?w1 @ rest" by blast
  have "append_loop C w d = append_loop C ?w1 d"
    using assms(3,4) by (simp add: append_loop_ready [OF assms(2)] id)
  with w'(1) nc have "Append C w d = Some (Inr w')"
    using r1 by (simp add: Append_def ready_def)
  with rest show ?thesis by simp
qed

lemma Append_fits:
  assumes "\<not> m_closed v" and "m_block v = Some bv" and "length bv = C"
    and "m_current v = Some c" and "m_end v = C" and "c + length dv \<le> C"
  shows "Append C v dv =
           Some (Inr (v\<lparr>m_block := Some (copy_into dv c bv), m_current := Some (c + length dv)\<rparr>))"
proof -
  have "append_loop C v dv = Some (copy_advance v dv)"
    using assms(6) by (subst append_loop.simps) (simp add: assms(4,5))
  moreover have "copy_advance v dv =
      Inr (v\<lparr>m_block := Some (copy_into dv c bv), m_current := Some (c + length dv)\<rparr>)"
    using assms(6) by (simp add: copy_advance_def assms(2,3,4))
  ultimately show ?thesis using assms(1) by (simp add: Append_def)
qed

lemma PutByte_fits:
  assumes "\<not> m_closed v" and "m_block v = Some bv" and "length bv = C"
    and "m_current v = Some c" and "m_end v = C" and "c < C"
  shows "PutByte C v x = Inr (v\<lparr>m_block := Some (bv[c := x]), m_current := Some (c + 1)\<rparr>)"
  using assms(1,6) by (simp add: PutByte_def store_byte_def assms(2,3,4,5))

lemma full_block_calls:
  assumes C: "0 < C" and r: "ready C w" and c: "cur w = C"
  shows "MarkItem C w = Inr (marked (flushed C w))"
    and "PutByte C w x = Inr (finish (flushed C w) [x])"
    and "Flush C w = Inr (flushed C w)"
    and "\<exists>w5. Close w = Inr w5 \<and> m_block w5 = None \<and>
           m_sink w5 = Some (calls w @ [sealed w, SinkClose])"
    and "d \<noteq> [] \<Longrightarrow> Append C w d = Append C (flushed C w) d"
proof -
  show "MarkItem C w = Inr (marked (flushed C w))"
    by (simp add: MarkItem_ready [OF r] c)
  show "PutByte C w x = Inr (finish (flushed C w) [x])"
    by (simp add: PutByte_ready [OF r C] c)
  show "Flush C w = Inr (flushed C w)" by (rule Flush_ready [OF r])
  have "cur w \<noteq> 0" using c C by simp
  then show "\<exists>w5. Close w = Inr w5 \<and> m_block w5 = None \<and>
           m_sink w5 = Some (calls w @ [sealed w, SinkClose])"
    by (simp add: Close_ready [OF r])
  show "Append C w d = Append C (flushed C w) d" if d: "d \<noteq> []"
  proof -
    have "finish w [] = w"
      using r by (simp add: finish_def ready_def holds_block_def)
    then have "append_loop C w d = append_loop C (flushed C w) d"
      using c d by (simp add: append_loop_ready [OF r])
    moreover have "\<not> m_closed w" "\<not> m_closed (flushed C w)"
      using r ready_flushed [OF r] by (simp_all add: ready_def)
    ultimately show ?thesis by (simp add: Append_def)
  qed
qed

lemma fresh_after_flush:
  "m_block (flushed C w) = Some (replicate C 0)"
  "m_current (flushed C w) = Some 0"
  "m_block (marked (flushed C w)) = Some (replicate C 0)"
  "m_current (marked (flushed C w)) = Some 0"
  "0 < C \<Longrightarrow> m_block (finish (flushed C w) [x]) = Some ((replicate C 0)[0 := x])"
  "m_current (finish (flushed C w) [x]) = Some 1"
  by (simp_all add: flushed_def AllocateBlock_def marked_def finish_def blk_def cur_def)

lemma sink_after_flush:
  "m_sink (flushed C w) = Some (calls w @ [sealed w])"
  "m_sink (marked (flushed C w)) = Some (calls w @ [sealed w])"
  "m_sink (finish (flushed C w) [x]) = Some (calls w @ [sealed w])"
  by (simp_all add: flushed_def AllocateBlock_def marked_def finish_def)

text \<open>
  Claim C10, as the code has it, in three parts. (1) For a block size above zero, after
  every sequence of calls other than \<^verbatim>\<open>Close()\<close> on a fresh writer the writer is open and
  holds one block, with the cursor inside it or at its end. (2) A block is not handed over
  when it fills: on an open writer \<open>v\<close>, \<^verbatim>\<open>Append\<close> of bytes that end exactly at the block's
  end, and \<^verbatim>\<open>PutByte\<close> into the last free byte, return with the cursor at the end, the full
  block still held and the sink untouched. (3) On a writer \<open>w\<close> with a sink whose cursor is at
  the end, the full block is handed to the sink, with valid range \<open>[0, BlockSize)\<close>, as the
  first thing the next call does: \<^verbatim>\<open>MarkItem()\<close>, \<^verbatim>\<open>PutByte\<close>, \<^verbatim>\<open>Flush()\<close> and a non-empty
  \<^verbatim>\<open>Append\<close> replace it by a fresh block and go on there; \<^verbatim>\<open>Close()\<close> hands it over and
  leaves the writer without a block.
\<close>

theorem one_block_sealed_lazily:
  assumes "0 < BlockSize"
  shows "(OpClose \<notin> set cs \<longrightarrow>
            (\<exists>w' b' c'. run BlockSize sv cs (BlockWriterBase BlockSize (Some [])) = Some (Inr w') \<and>
               \<not> m_closed w' \<and> m_block w' = Some b' \<and> length b' = BlockSize \<and>
               m_current w' = Some c' \<and> c' \<le> BlockSize)) \<and>
         (\<not> m_closed v \<and> m_block v = Some bv \<and> length bv = BlockSize \<and>
          m_current v = Some c \<and> m_end v = BlockSize \<longrightarrow>
            (c + length dv = BlockSize \<longrightarrow>
               Append BlockSize v dv =
                 Some (Inr (v\<lparr>m_block := Some (copy_into dv c bv),
                              m_current := Some BlockSize\<rparr>))) \<and>
            (c + 1 = BlockSize \<longrightarrow>
               PutByte BlockSize v xv =
                 Inr (v\<lparr>m_block := Some (bv[c := xv]), m_current := Some BlockSize\<rparr>))) \<and>
         (\<not> m_closed w \<and> m_block w = Some b \<and> length b = BlockSize \<and>
          m_current w = Some BlockSize \<and> m_end w = BlockSize \<and> m_sink w = Some log \<longrightarrow>
            (\<exists>w1. MarkItem BlockSize w = Inr w1 \<and>
               m_block w1 = Some (replicate BlockSize 0) \<and> m_current w1 = Some 0 \<and>
               m_sink w1 =
                 Some (log @ [AppendBlock b 0 BlockSize (m_first_offset w) (m_nitems w)])) \<and>
            (\<exists>w2. PutByte BlockSize w x = Inr w2 \<and>
               m_block w2 = Some ((replicate BlockSize 0)[0 := x]) \<and> m_current w2 = Some 1 \<and>
               m_sink w2 =
                 Some (log @ [AppendBlock b 0 BlockSize (m_first_offset w) (m_nitems w)])) \<and>
            (\<exists>w4. Flush BlockSize w = Inr w4 \<and>
               m_block w4 = Some (replicate BlockSize 0) \<and> m_current w4 = Some 0 \<and>
               m_sink w4 =
                 Some (log @ [AppendBlock b 0 BlockSize (m_first_offset w) (m_nitems w)])) \<and>
            (\<exists>w5. Close w = Inr w5 \<and> m_block w5 = None \<and>
               m_sink w5 =
                 Some (log @ [AppendBlock b 0 BlockSize (m_first_offset w) (m_nitems w),
                              SinkClose])) \<and>
            (d \<noteq> [] \<longrightarrow>
               Append BlockSize w d =
                 Append BlockSize
                   (AllocateBlock BlockSize
                      (w\<lparr>m_sink :=
                           Some (log @ [AppendBlock b 0 BlockSize (m_first_offset w) (m_nitems w)])\<rparr>))
                   d \<and>
               (\<exists>w3 rest b3. Append BlockSize w d = Some (Inr w3) \<and>
                  m_block w3 = Some b3 \<and> length b3 = BlockSize \<and>
                  m_sink w3 =
                    Some (log @ AppendBlock b 0 BlockSize (m_first_offset w) (m_nitems w) # rest))))"
proof -
  have part1: "\<exists>w' b' c'. run BlockSize sv cs (BlockWriterBase BlockSize (Some [])) = Some (Inr w') \<and>
               \<not> m_closed w' \<and> m_block w' = Some b' \<and> length b' = BlockSize \<and>
               m_current w' = Some c' \<and> c' \<le> BlockSize"
    if "OpClose \<notin> set cs"
  proof -
    from run_steps [of BlockSize "BlockWriterBase BlockSize (Some [])" cs True sv,
        OF assms ready_fresh open_ops [OF that]]
    obtain w' where w1: "run BlockSize sv cs (BlockWriterBase BlockSize (Some [])) = Some (Inr w')"
      and st: "steps BlockSize True (BlockWriterBase BlockSize (Some [])) (ops_bytes sv cs)
                 (ops_marks sv cs) w'"
      by (elim exE conjE)
    have "ready BlockSize w'" by (rule steps_ready [OF st ready_fresh])
    then have "\<not> m_closed w' \<and> m_block w' = Some (blk w') \<and> length (blk w') = BlockSize \<and>
                 m_current w' = Some (cur w') \<and> cur w' \<le> BlockSize"
      by (simp add: ready_def holds_block_def)
    with w1 show ?thesis
      by (intro exI [of _ w'] exI [of _ "blk w'"] exI [of _ "cur w'"]) simp
  qed
  have part2a: "Append BlockSize v dv =
        Some (Inr (v\<lparr>m_block := Some (copy_into dv c bv), m_current := Some BlockSize\<rparr>))"
    if a: "\<not> m_closed v \<and> m_block v = Some bv \<and> length bv = BlockSize \<and>
          m_current v = Some c \<and> m_end v = BlockSize" and e: "c + length dv = BlockSize"
  proof -
    from a have a1: "\<not> m_closed v" and a2: "m_block v = Some bv" and a3: "length bv = BlockSize"
      and a4: "m_current v = Some c" and a5: "m_end v = BlockSize" by simp_all
    from e have le: "c + length dv \<le> BlockSize" by simp
    from Append_fits [OF a1 a2 a3 a4 a5 le] show ?thesis by (simp only: e)
  qed
  have part2b: "PutByte BlockSize v xv =
        Inr (v\<lparr>m_block := Some (bv[c := xv]), m_current := Some BlockSize\<rparr>)"
    if a: "\<not> m_closed v \<and> m_block v = Some bv \<and> length bv = BlockSize \<and>
          m_current v = Some c \<and> m_end v = BlockSize" and e: "c + 1 = BlockSize"
  proof -
    from a have a1: "\<not> m_closed v" and a2: "m_block v = Some bv" and a3: "length bv = BlockSize"
      and a4: "m_current v = Some c" and a5: "m_end v = BlockSize" by simp_all
    from e have lt: "c < BlockSize" by simp
    from PutByte_fits [OF a1 a2 a3 a4 a5 lt] show ?thesis by (simp only: e)
  qed
  have part3: "(\<exists>w1. MarkItem BlockSize w = Inr w1 \<and>
               m_block w1 = Some (replicate BlockSize 0) \<and> m_current w1 = Some 0 \<and>
               m_sink w1 =
                 Some (log @ [AppendBlock b 0 BlockSize (m_first_offset w) (m_nitems w)])) \<and>
            (\<exists>w2. PutByte BlockSize w x = Inr w2 \<and>
               m_block w2 = Some ((replicate BlockSize 0)[0 := x]) \<and> m_current w2 = Some 1 \<and>
               m_sink w2 =
                 Some (log @ [AppendBlock b 0 BlockSize (m_first_offset w) (m_nitems w)])) \<and>
            (\<exists>w4. Flush BlockSize w = Inr w4 \<and>
               m_block w4 = Some (replicate BlockSize 0) \<and> m_current w4 = Some 0 \<and>
               m_sink w4 =
                 Some (log @ [AppendBlock b 0 BlockSize (m_first_offset w) (m_nitems w)])) \<and>
            (\<exists>w5. Close w = Inr w5 \<and> m_block w5 = None \<and>
               m_sink w5 =
                 Some (log @ [AppendBlock b 0 BlockSize (m_first_offset w) (m_nitems w),
                              SinkClose])) \<and>
            (d \<noteq> [] \<longrightarrow>
               Append BlockSize w d =
                 Append BlockSize
                   (AllocateBlock BlockSize
                      (w\<lparr>m_sink :=
                           Some (log @ [AppendBlock b 0 BlockSize (m_first_offset w) (m_nitems w)])\<rparr>))
                   d \<and>
               (\<exists>w3 rest b3. Append BlockSize w d = Some (Inr w3) \<and>
                  m_block w3 = Some b3 \<and> length b3 = BlockSize \<and>
                  m_sink w3 =
                    Some (log @ AppendBlock b 0 BlockSize (m_first_offset w) (m_nitems w) # rest)))"
    if a: "\<not> m_closed w \<and> m_block w = Some b \<and> length b = BlockSize \<and>
          m_current w = Some BlockSize \<and> m_end w = BlockSize \<and> m_sink w = Some log"
  proof -
    from a have a1: "\<not> m_closed w" and a2: "m_block w = Some b" and a3: "length b = BlockSize"
      and a4: "m_current w = Some BlockSize" and a5: "m_end w = BlockSize"
      and a6: "m_sink w = Some log"
      by simp_all
    have r: "ready BlockSize w"
      by (rule ready_intro [OF a1 a2 a3 a4 order_refl a5 a6])
    have c: "cur w = BlockSize" by (simp add: cur_def a4)
    have cl: "calls w = log" by (simp add: calls_def a6)
    have s: "sealed w = AppendBlock b 0 BlockSize (m_first_offset w) (m_nitems w)"
      by (rule sealed_eq [OF a2 a4])
    let ?blk = "AppendBlock b 0 BlockSize (m_first_offset w) (m_nitems w)"
    note F = full_block_calls [OF assms r c]
    note B = fresh_after_flush [of BlockSize w]
    note K = sink_after_flush [of BlockSize w, unfolded cl s]
    have g1: "\<exists>w1. MarkItem BlockSize w = Inr w1 \<and>
               m_block w1 = Some (replicate BlockSize 0) \<and> m_current w1 = Some 0 \<and>
               m_sink w1 = Some (log @ [?blk])"
      using F(1) B(3,4) K(2) by blast
    have g2: "\<exists>w2. PutByte BlockSize w x = Inr w2 \<and>
               m_block w2 = Some ((replicate BlockSize 0)[0 := x]) \<and> m_current w2 = Some 1 \<and>
               m_sink w2 = Some (log @ [?blk])"
      using F(2) [of x] B(5) [OF assms, of x] B(6) [of x] K(3) [of x] by blast
    have g4: "\<exists>w4. Flush BlockSize w = Inr w4 \<and>
               m_block w4 = Some (replicate BlockSize 0) \<and> m_current w4 = Some 0 \<and>
               m_sink w4 = Some (log @ [?blk])"
      using F(3) B(1,2) K(1) by blast
    have g5: "\<exists>w5. Close w = Inr w5 \<and> m_block w5 = None \<and>
               m_sink w5 = Some (log @ [?blk, SinkClose])"
      using F(4) by (simp only: cl s)
    have g3: "Append BlockSize w d =
                 Append BlockSize (AllocateBlock BlockSize (w\<lparr>m_sink := Some (log @ [?blk])\<rparr>)) d \<and>
               (\<exists>w3 rest b3. Append BlockSize w d = Some (Inr w3) \<and>
                  m_block w3 = Some b3 \<and> length b3 = BlockSize \<and>
                  m_sink w3 = Some (log @ ?blk # rest))"
      if d: "d \<noteq> []"
    proof
      have "flushed BlockSize w = AllocateBlock BlockSize (w\<lparr>m_sink := Some (log @ [?blk])\<rparr>)"
        by (simp only: flushed_def cl s)
      with F(5) [OF d]
      show "Append BlockSize w d =
              Append BlockSize (AllocateBlock BlockSize (w\<lparr>m_sink := Some (log @ [?blk])\<rparr>)) d"
        by simp
      from Append_full [OF assms r c d]
      obtain w3 rest where w3: "Append BlockSize w d = Some (Inr w3)"
        "calls w3 = calls w @ sealed w # rest" by blast
      from Append_steps [OF assms r, of d True] w3(1)
      have "steps BlockSize True w d [] w3" by simp
      from steps_ready [OF this r] have r3: "ready BlockSize w3" .
      then have "m_sink w3 = Some (calls w3)" by (simp add: ready_def)
      then have k3: "m_sink w3 = Some (log @ ?blk # rest)"
        by (simp only: w3(2) cl s)
      from r3 have "m_block w3 = Some (blk w3)" "length (blk w3) = BlockSize"
        by (simp_all add: ready_def holds_block_def)
      with w3(1) k3
      show "\<exists>w3 rest b3. Append BlockSize w d = Some (Inr w3) \<and>
                  m_block w3 = Some b3 \<and> length b3 = BlockSize \<and>
                  m_sink w3 = Some (log @ ?blk # rest)"
        by blast
    qed
    from g1 g2 g4 g5 g3 show ?thesis by blast
  qed
  from part1 part2a part2b part3 show ?thesis by blast
qed

theorem one_block_sealed_lazily_witness:
  "(0::nat) < 4 \<and> OpClose \<notin> set [OpAppend [1, 2, 3, 4]] \<and>
   run 4 False [OpAppend [1, 2, 3, 4]] (BlockWriterBase 4 (Some [])) =
     Some (Inr \<lparr>m_block = Some [1, 2, 3, 4], m_current = Some 4, m_end = 4, m_nitems = 0,
                m_first_offset = 0, m_sink = Some [], m_closed = False\<rparr>) \<and>
   Append 4 \<lparr>m_block = Some [1, 2, 0, 0], m_current = Some 2, m_end = 4, m_nitems = 0,
                m_first_offset = 0, m_sink = Some [], m_closed = False\<rparr> [3, 4] =
     Some (Inr \<lparr>m_block = Some [1, 2, 3, 4], m_current = Some 4, m_end = 4, m_nitems = 0,
                m_first_offset = 0, m_sink = Some [], m_closed = False\<rparr>) \<and>
   PutByte 4 \<lparr>m_block = Some [1, 2, 3, 0], m_current = Some 3, m_end = 4, m_nitems = 0,
                m_first_offset = 0, m_sink = Some [], m_closed = False\<rparr> 4 =
     Inr \<lparr>m_block = Some [1, 2, 3, 4], m_current = Some 4, m_end = 4, m_nitems = 0,
          m_first_offset = 0, m_sink = Some [], m_closed = False\<rparr> \<and>
   MarkItem 4 \<lparr>m_block = Some [1, 2, 3, 4], m_current = Some 4, m_end = 4, m_nitems = 0,
                m_first_offset = 0, m_sink = Some [], m_closed = False\<rparr> =
     Inr \<lparr>m_block = Some [0, 0, 0, 0], m_current = Some 0, m_end = 4, m_nitems = 1,
          m_first_offset = 0, m_sink = Some [AppendBlock [1, 2, 3, 4] 0 4 0 0],
          m_closed = False\<rparr> \<and>
   PutByte 4 \<lparr>m_block = Some [1, 2, 3, 4], m_current = Some 4, m_end = 4, m_nitems = 0,
                m_first_offset = 0, m_sink = Some [], m_closed = False\<rparr> 9 =
     Inr \<lparr>m_block = Some [9, 0, 0, 0], m_current = Some 1, m_end = 4, m_nitems = 0,
          m_first_offset = 0, m_sink = Some [AppendBlock [1, 2, 3, 4] 0 4 0 0],
          m_closed = False\<rparr> \<and>
   Flush 4 \<lparr>m_block = Some [1, 2, 3, 4], m_current = Some 4, m_end = 4, m_nitems = 0,
                m_first_offset = 0, m_sink = Some [], m_closed = False\<rparr> =
     Inr \<lparr>m_block = Some [0, 0, 0, 0], m_current = Some 0, m_end = 4, m_nitems = 0,
          m_first_offset = 0, m_sink = Some [AppendBlock [1, 2, 3, 4] 0 4 0 0],
          m_closed = False\<rparr> \<and>
   Close \<lparr>m_block = Some [1, 2, 3, 4], m_current = Some 4, m_end = 4, m_nitems = 0,
                m_first_offset = 0, m_sink = Some [], m_closed = False\<rparr> =
     Inr \<lparr>m_block = None, m_current = None, m_end = 4, m_nitems = 0,
          m_first_offset = 0, m_sink = Some [AppendBlock [1, 2, 3, 4] 0 4 0 0, SinkClose],
          m_closed = True\<rparr> \<and>
   Append 4 \<lparr>m_block = Some [1, 2, 3, 4], m_current = Some 4, m_end = 4, m_nitems = 0,
                m_first_offset = 0, m_sink = Some [], m_closed = False\<rparr> [8, 9] =
     Some (Inr \<lparr>m_block = Some [8, 9, 0, 0], m_current = Some 2, m_end = 4, m_nitems = 0,
          m_first_offset = 0, m_sink = Some [AppendBlock [1, 2, 3, 4] 0 4 0 0],
          m_closed = False\<rparr>)"
proof -
  let ?w = "\<lparr>m_block = Some [1, 2, 3, 4], m_current = Some 4, m_end = 4, m_nitems = 0,
                m_first_offset = 0, m_sink = Some [], m_closed = False\<rparr>"
  let ?v2 = "\<lparr>m_block = Some [1, 2, 0, 0], m_current = Some 2, m_end = 4, m_nitems = 0,
                m_first_offset = 0, m_sink = Some [], m_closed = False\<rparr>"
  let ?v3 = "\<lparr>m_block = Some [1, 2, 3, 0], m_current = Some 3, m_end = 4, m_nitems = 0,
                m_first_offset = 0, m_sink = Some [], m_closed = False\<rparr>"
  have e1: "run 4 False [OpAppend [1, 2, 3, 4]] (BlockWriterBase 4 (Some [])) = Some (Inr ?w)"
    by (simp add: eval_defs eval_nat_numeral)
  have l1: "Append 4 ?v2 [3, 4] = Some (Inr ?w)"
    using one_block_sealed_lazily [where BlockSize = 4 and v = ?v2 and bv = "[1, 2, 0, 0]"
        and c = 2 and dv = "[3, 4]"]
    by (simp add: eval_nat_numeral)
  have l2: "PutByte 4 ?v3 4 = Inr ?w"
    using one_block_sealed_lazily [where BlockSize = 4 and v = ?v3 and bv = "[1, 2, 3, 0]"
        and c = 3 and xv = 4]
    by (simp add: eval_nat_numeral)
  have e2: "MarkItem 4 ?w =
     Inr \<lparr>m_block = Some [0, 0, 0, 0], m_current = Some 0, m_end = 4, m_nitems = 1,
          m_first_offset = 0, m_sink = Some [AppendBlock [1, 2, 3, 4] 0 4 0 0],
          m_closed = False\<rparr>"
    by (simp add: eval_defs eval_nat_numeral)
  have e3: "PutByte 4 ?w 9 =
     Inr \<lparr>m_block = Some [9, 0, 0, 0], m_current = Some 1, m_end = 4, m_nitems = 0,
          m_first_offset = 0, m_sink = Some [AppendBlock [1, 2, 3, 4] 0 4 0 0],
          m_closed = False\<rparr>"
    by (simp add: eval_defs eval_nat_numeral)
  have e4: "Append 4 ?w [8, 9] =
     Some (Inr \<lparr>m_block = Some [8, 9, 0, 0], m_current = Some 2, m_end = 4, m_nitems = 0,
          m_first_offset = 0, m_sink = Some [AppendBlock [1, 2, 3, 4] 0 4 0 0],
          m_closed = False\<rparr>)"
    by (simp add: eval_defs eval_nat_numeral)
  have e5: "Flush 4 ?w =
     Inr \<lparr>m_block = Some [0, 0, 0, 0], m_current = Some 0, m_end = 4, m_nitems = 0,
          m_first_offset = 0, m_sink = Some [AppendBlock [1, 2, 3, 4] 0 4 0 0],
          m_closed = False\<rparr>"
    by (simp add: eval_defs eval_nat_numeral)
  have e6: "Close ?w =
     Inr \<lparr>m_block = None, m_current = None, m_end = 4, m_nitems = 0,
          m_first_offset = 0, m_sink = Some [AppendBlock [1, 2, 3, 4] 0 4 0 0, SinkClose],
          m_closed = True\<rparr>"
    by (simp add: eval_defs eval_nat_numeral)
  show ?thesis
    using one_block_sealed_lazily [where BlockSize = 4 and cs = "[OpAppend [1, 2, 3, 4]]"
        and sv = False and w = ?w and b = "[1, 2, 3, 4]" and log = "[]" and x = 9
        and d = "[8, 9]"]
      e1 l1 l2 e2 e3 e4 e5 e6
    by simp
qed

text \<open>\<^verbatim>\<open>Append\<close> of four bytes to a fresh writer with blocks of four: it returns with the
  cursor at the end of the block and the sink has received nothing.\<close>

theorem one_block_sealed_lazily_counterexample:
  "run 4 False [OpAppend [1, 2, 3, 4]] (BlockWriterBase 4 (Some [])) =
     Some (Inr \<lparr>m_block = Some [1, 2, 3, 4], m_current = Some 4, m_end = 4, m_nitems = 0,
                m_first_offset = 0, m_sink = Some [], m_closed = False\<rparr>)"
  by (simp add: eval_defs eval_nat_numeral)

section \<open>Counting blocks\<close>

lemma is_full_sealed: "ready C w \<Longrightarrow> cur w = C \<Longrightarrow> is_full C (sealed w)"
  by (simp add: sealed_def ready_def holds_block_def)

lemma steps_all_full:
  "steps C False w S ps w' \<Longrightarrow> ready C w \<Longrightarrow> list_all (is_full C) (calls w) \<Longrightarrow>
   list_all (is_full C) (calls w')"
proof (induction rule: steps.induct)
  case nil
  then show ?case by simp
next
  case (copy S ps w1 d)
  then show ?case by simp
next
  case (seal S ps w1)
  from is_full_sealed [OF steps_ready [OF seal.hyps(1) seal.prems(1)] seal.hyps(2)]
    seal.IH [OF seal.prems]
  show ?case by simp
next
  case (mark S ps w1)
  then show ?case by simp
next
  case (flush S ps w1)
  then show ?case by simp
next
  case (reloc S ps w1 vbs)
  then show ?case by simp
qed

lemma all_full_stream: "list_all (is_full C) cs \<Longrightarrow> length (sink_stream cs) = C * length cs"
proof (induction cs)
  case Nil
  then show ?case by simp
next
  case (Cons c cs)
  then show ?case by (cases c) simp_all
qed

lemma all_full_blocks: "list_all (is_full C) cs \<Longrightarrow> length (filter is_block cs) = length cs"
proof (induction cs)
  case Nil
  then show ?case by simp
next
  case (Cons c cs)
  then show ?case by (cases c) simp_all
qed

lemma steps_no_bytes:
  "steps C False w S ps w' \<Longrightarrow> 0 < C \<Longrightarrow> cur w = 0 \<Longrightarrow> S = [] \<Longrightarrow>
   cur w' = 0 \<and> calls w' = calls w \<and> m_nitems w' = m_nitems w + length ps"
proof (induction rule: steps.induct)
  case nil
  then show ?case by simp
next
  case (copy S ps w1 d)
  then show ?case by simp
next
  case (seal S ps w1)
  then show ?case by simp
next
  case (mark S ps w1)
  then show ?case by simp
next
  case (flush S ps w1)
  then show ?case by simp
next
  case (reloc S ps w1 vbs)
  then show ?case by simp
qed

lemma Append_empty: "ready C w \<Longrightarrow> Append C w [] = Some (Inr w)"
proof -
  assume r: "ready C w"
  then have "finish w [] = w"
    by (simp add: finish_def ready_def holds_block_def)
  with r show ?thesis
    by (simp add: Append_def append_loop_ready [OF r]) (simp add: ready_def holds_block_def)
qed

lemma Append_cur:
  assumes "0 < C" and "ready C w" and "d \<noteq> []"
  shows "\<exists>w'. Append C w d = Some (Inr w') \<and> 0 < cur w'"
proof -
  have "\<exists>w'. append_loop C w d = Some (Inr w') \<and> 0 < cur w'"
  proof (rule append_loop_rule [where I = "\<lambda>w1 d1. d1 \<noteq> []", OF assms(1,2)])
    show "d \<noteq> []" by fact
  next
    fix w1 :: writer and d1 :: "byte list"
    assume r1: "ready C w1" and big: "C < cur w1 + length d1"
    from r1 have "cur w1 \<le> C" by (simp add: ready_def holds_block_def)
    with big show "drop (C - cur w1) d1 \<noteq> []" by simp
  next
    fix w1 :: writer and d1 :: "byte list"
    assume "d1 \<noteq> []"
    then show "0 < cur (finish w1 d1)" by simp
  qed
  moreover have "\<not> m_closed w" using assms(2) by (simp add: ready_def)
  ultimately show ?thesis by (simp add: Append_def)
qed

lemma exec_cur:
  assumes "0 < C" and "ready C w" and "is_bytes_op c" and "0 < cur w \<or> op_bytes sv c \<noteq> []"
    and "exec C sv c w = Some (Inr w')"
  shows "0 < cur w'"
proof (cases c)
  case (OpAppend d)
  show ?thesis
  proof (cases "d = []")
    case True
    with OpAppend assms(2,4,5) show ?thesis by (simp add: Append_empty)
  next
    case False
    from Append_cur [OF assms(1,2) False] OpAppend assms(5) show ?thesis by auto
  qed
next
  case (OpPutByte x)
  with assms(5) show ?thesis by (simp add: PutByte_ready [OF assms(2,1)]) auto
qed (use assms(3) in simp_all)

lemma bytes_op_write: "is_bytes_op c \<Longrightarrow> is_open c \<and> (a \<or> is_write c)"
  by (cases c) simp_all

lemma run_cur:
  assumes "0 < C"
  shows "ready C w \<Longrightarrow> \<forall>c\<in>set cs. is_bytes_op c \<Longrightarrow> 0 < cur w \<or> ops_bytes sv cs \<noteq> [] \<Longrightarrow>
         run C sv cs w = Some (Inr w') \<Longrightarrow> 0 < cur w'"
proof (induction cs arbitrary: w)
  case Nil
  then show ?case by simp
next
  case (Cons c cs)
  from Cons.prems(2) have bc: "is_bytes_op c" by simp
  from exec_steps [OF assms Cons.prems(1), of c False sv] bytes_op_write [OF bc, of False]
  obtain w1 where w1: "exec C sv c w = Some (Inr w1)"
    "steps C False w (op_bytes sv c) (op_marks c) w1" by blast
  have r1: "ready C w1" by (rule steps_ready [OF w1(2) Cons.prems(1)])
  have run1: "run C sv cs w1 = Some (Inr w')" using Cons.prems(4) w1(1) by simp
  have "0 < cur w1 \<or> ops_bytes sv cs \<noteq> []"
  proof (cases "0 < cur w \<or> op_bytes sv c \<noteq> []")
    case True
    from exec_cur [OF assms Cons.prems(1) bc True w1(1)] show ?thesis by simp
  next
    case False
    with Cons.prems(3) show ?thesis by simp
  qed
  from Cons.IH [OF r1 _ this run1] Cons.prems(2) show ?case by simp
qed

lemma Serialize_run: "Serialize C ser w = run C sv (map call_op ser) w"
proof (induction ser arbitrary: w)
  case Nil
  then show ?case by simp
next
  case (Cons c ser)
  have "exec C sv (call_op c) w = apply_call C c w" by (cases c) simp_all
  with Cons.IH show ?case by (simp split: option.splits sum.splits)
qed

lemma calls_bytes_ops: "\<forall>c\<in>set (map call_op ser). is_bytes_op c"
proof (induction ser)
  case Nil
  then show ?case by simp
next
  case (Cons c ser)
  then show ?case by (cases c) simp_all
qed

lemma item_cur:
  assumes "0 < C" and "ready C w" and "item_bytes sv it \<noteq> []"
    and "run C sv (item_ops it) w = Some (Inr w')"
  shows "0 < cur w'"
proof (cases it)
  case (Marked ser)
  from MarkItem_steps [OF assms(1,2), of False]
  obtain w1 where w1: "MarkItem C w = Inr w1" "steps C False w [] [0] w1" by blast
  have r1: "ready C w1" by (rule steps_ready [OF w1(2) assms(2)])
  from assms(4) Marked w1(1) have run1: "run C sv (map call_op ser) w1 = Some (Inr w')" by simp
  from assms(3) Marked have "0 < cur w1 \<or> ops_bytes sv (map call_op ser) \<noteq> []" by simp
  from run_cur [OF assms(1) r1 calls_bytes_ops this run1] show ?thesis .
next
  case (Generic h ser)
  from MarkItem_steps [OF assms(1,2), of False]
  obtain w1 where w1: "MarkItem C w = Inr w1" "steps C False w [] [0] w1" by blast
  have r1: "ready C w1" by (rule steps_ready [OF w1(2) assms(2)])
  have nc: "\<not> m_closed w" using assms(2) by (simp add: ready_def)
  let ?pre = "if sv then [OpAppend h] else []"
  have "write_item C sv h ser w = run C sv (?pre @ map call_op ser) w1"
    unfolding write_item_def using nc w1(1)
    by (simp add: Put_def Serialize_run [of C ser _ sv] split: option.splits sum.splits)
  moreover have "write_item C sv h ser w = Some (Inr w')"
    using assms(4) Generic by (simp split: option.splits sum.splits)
  ultimately have run1: "run C sv (?pre @ map call_op ser) w1 = Some (Inr w')"
    by simp
  have b: "\<forall>c\<in>set (?pre @ map call_op ser). is_bytes_op c"
    using calls_bytes_ops [of ser] by auto
  from assms(3) Generic have "0 < cur w1 \<or> ops_bytes sv (?pre @ map call_op ser) \<noteq> []"
    by simp
  from run_cur [OF assms(1) r1 b this run1] show ?thesis .
qed

lemma block_count_arith:
  fixes C n c N k :: nat
  assumes "C * n + c = N * C + k" and "0 < c" and "c \<le> C" and "k < C"
  shows "n + 1 = N + (if 0 < k then 1 else 0)"
proof (cases "c = C")
  case True
  with assms(1) have e: "C * (n + 1) = C * N + k" by (simp add: algebra_simps)
  then have "(C * (n + 1)) mod C = (C * N + k) mod C" by simp
  with assms(4) have k: "k = 0" by simp
  from assms(2,3) have C: "C \<noteq> 0" by simp
  from e k have "C * (n + 1) = C * N" by simp
  then have "n + 1 = N" unfolding mult_left_cancel [OF C] .
  with k show ?thesis by simp
next
  case False
  with assms(3) have cC: "c < C" by simp
  from assms(1) have "(C * n + c) mod C = (C * N + k) mod C" by (simp add: algebra_simps)
  with cC assms(4) have ck: "c = k" by simp
  from assms(2,3) have C: "C \<noteq> 0" by simp
  from assms(1) ck have "C * n = C * N" by (simp add: algebra_simps)
  then have "n = N" unfolding mult_left_cancel [OF C] .
  with ck assms(2) show ?thesis by simp
qed

lemma stream_length: "ready C w \<Longrightarrow> length (stream w) = length (sink_stream (calls w)) + cur w"
  by (simp add: stream_def ready_def holds_block_def)

lemma is_block_sealed [simp]: "is_block (sealed w)"
  by (simp add: sealed_def)

text \<open>
  Claim C3, as the code has it. For a block size \<open>C\<close> above zero, \<open>k < C\<close> and a single item
  of \<open>N * C + k\<close> bytes, written by \<^verbatim>\<open>MarkItem()\<close> and calls of \<^verbatim>\<open>Append\<close> and \<^verbatim>\<open>PutByte\<close> or by
  \<^verbatim>\<open>operator()\<close>, and then \<^verbatim>\<open>Close()\<close>: the sink receives \<open>N + (if 0 < k then 1 else 0)\<close>
  blocks when the item has at least one byte, and one block (with an empty valid range,
  sealed because it holds the item's start) when the item has no byte. In both cases the
  valid bytes of the blocks, concatenated, are the item's bytes.
\<close>

theorem single_item_blocks:
  assumes "0 < BlockSize" and "k < BlockSize"
    and "length (item_bytes sv it) = N * BlockSize + k"
  shows "\<exists>w' log. run BlockSize sv (item_ops it @ [OpClose]) (BlockWriterBase BlockSize (Some []))
                     = Some (Inr w') \<and>
                   m_sink w' = Some log \<and>
                   length (filter is_block log) =
                     (if N = 0 \<and> k = 0 then 1 else N + (if 0 < k then 1 else 0)) \<and>
                   sink_stream log = item_bytes sv it"
proof -
  let ?w = "BlockWriterBase BlockSize (Some [])"
  let ?S = "item_bytes sv it"
  have ops: "\<forall>c\<in>set (item_ops it). is_open c \<and> (False \<or> is_write c)"
    using item_ops_write [of _ it] by blast
  from run_steps [of BlockSize ?w "item_ops it" False sv, OF assms(1) ready_fresh ops]
  obtain w1 where run1: "run BlockSize sv (item_ops it) ?w = Some (Inr w1)"
    and st: "steps BlockSize False ?w ?S [0] w1" by auto
  have r1: "ready BlockSize w1" by (rule steps_ready [OF st ready_fresh])
  from Close_calls [OF r1]
  obtain w' where cl: "Close w1 = Inr w'" "m_sink w' = Some (calls w1 @ closing w1 @ [SinkClose])"
    by blast
  let ?log = "calls w1 @ closing w1 @ [SinkClose]"
  have run2: "run BlockSize sv (item_ops it @ [OpClose]) ?w = Some (Inr w')"
    using run1 cl(1) by (simp add: run_append)
  have str: "stream w1 = ?S"
    using steps_stream [OF st ready_fresh] by (simp add: stream_fresh)
  have bytes: "sink_stream ?log = ?S"
    using str by (simp only: stream_closing)
  have full: "list_all (is_full BlockSize) (calls w1)"
    by (rule steps_all_full [OF st ready_fresh]) (simp add: calls_fresh)
  have len: "BlockSize * length (calls w1) + cur w1 = N * BlockSize + k"
    using stream_length [OF r1] str all_full_stream [OF full] assms(3) by simp
  have count: "length (filter is_block ?log) =
                 (if N = 0 \<and> k = 0 then 1 else N + (if 0 < k then 1 else 0))"
  proof (cases "?S = []")
    case True
    have c0: "cur ?w = 0" by (simp add: BlockWriterBase_def)
    have n0: "m_nitems ?w = 0" by (simp add: BlockWriterBase_def)
    from steps_no_bytes [OF st assms(1) c0 True]
    have "cur w1 = 0" "calls w1 = []" "m_nitems w1 = 1"
      by (simp_all add: calls_fresh n0)
    moreover from True assms(1,3) have "N = 0 \<and> k = 0" by simp
    ultimately show ?thesis by (simp add: closing_def)
  next
    case False
    from item_cur [OF assms(1) ready_fresh False run1] have pos: "0 < cur w1" .
    have cw: "cur w1 \<le> BlockSize" using r1 by (simp add: ready_def holds_block_def)
    from block_count_arith [OF len pos cw assms(2)]
    have "length (calls w1) + 1 = N + (if 0 < k then 1 else 0)" .
    moreover have "\<not> (N = 0 \<and> k = 0)"
    proof
      assume "N = 0 \<and> k = 0"
      with assms(3) have "length (item_bytes sv it) = 0" by simp
      with False show False by simp
    qed
    ultimately show ?thesis
      using pos all_full_blocks [OF full] by (simp add: closing_def)
  qed
  from run2 cl(2) count bytes show ?thesis by blast
qed

theorem single_item_blocks_witness:
  "(0::nat) < 4 \<and> (1::nat) < 4 \<and>
   length (item_bytes False (Marked [CallAppend [1, 2, 3, 4, 5, 6], CallPutByte 7,
                                     CallAppend [8, 9]])) = 2 * 4 + 1 \<and>
   run 4 False (item_ops (Marked [CallAppend [1, 2, 3, 4, 5, 6], CallPutByte 7,
                                  CallAppend [8, 9]]) @ [OpClose])
       (BlockWriterBase 4 (Some [])) =
     Some (Inr \<lparr>m_block = None, m_current = None, m_end = 4, m_nitems = 0, m_first_offset = 0,
                m_sink = Some [AppendBlock [1, 2, 3, 4] 0 4 0 1, AppendBlock [5, 6, 7, 8] 0 4 0 0,
                               AppendBlock [9, 0, 0, 0] 0 1 0 0, SinkClose],
                m_closed = True\<rparr>) \<and>
   length (filter is_block [AppendBlock [1, 2, 3, 4] 0 4 0 1, AppendBlock [5, 6, 7, 8] 0 4 0 0,
                            AppendBlock [9, 0, 0, 0] 0 1 0 0, SinkClose]) = 2 + 1"
proof -
  let ?it = "Marked [CallAppend [1, 2, 3, 4, 5, 6], CallPutByte 7, CallAppend [8, 9]]"
  have l: "length (item_bytes False ?it) = 2 * 4 + 1"
    by (simp add: ser_bytes_def)
  have e: "run 4 False (item_ops ?it @ [OpClose]) (BlockWriterBase 4 (Some [])) =
     Some (Inr \<lparr>m_block = None, m_current = None, m_end = 4, m_nitems = 0, m_first_offset = 0,
                m_sink = Some [AppendBlock [1, 2, 3, 4] 0 4 0 1, AppendBlock [5, 6, 7, 8] 0 4 0 0,
                               AppendBlock [9, 0, 0, 0] 0 1 0 0, SinkClose],
                m_closed = True\<rparr>)"
    by (simp add: eval_defs eval_nat_numeral)
  show ?thesis
    using single_item_blocks [of 4 1 False ?it 2] l e by simp
qed

text \<open>An item with no byte (\<open>N = 0\<close>, \<open>k = 0\<close>): the sink receives one block, not none.\<close>

theorem single_item_blocks_counterexample:
  "length (item_bytes False (Marked [CallAppend []])) = 0 * 4 + 0 \<and>
   run 4 False (item_ops (Marked [CallAppend []]) @ [OpClose]) (BlockWriterBase 4 (Some [])) =
     Some (Inr \<lparr>m_block = None, m_current = None, m_end = 4, m_nitems = 0, m_first_offset = 0,
                m_sink = Some [AppendBlock [0, 0, 0, 0] 0 0 0 1, SinkClose],
                m_closed = True\<rparr>) \<and>
   length (filter is_block [AppendBlock [0, 0, 0, 0] 0 0 0 1, SinkClose]) = 1"
  by (simp add: eval_defs eval_nat_numeral)

section \<open>Item counts and first-item offsets\<close>














lemma span_sealed [simp]: "span [sealed w] = cur w"
  by (simp add: sealed_def)

lemma blocks_ok_sealed [simp]:
  "blocks_ok ps s [sealed w] = meta_ok ps s (cur w) (m_first_offset w) (m_nitems w)"
  by (simp add: sealed_def)

lemma span_closing [simp]: "span (closing w) = cur w"
  by (simp add: closing_def)


lemma blocks_ok_vblocks [simp]: "blocks_ok ps s (map AppendVirtualBlock vbs)"
  by (induction vbs arbitrary: s) simp_all























end
